theory Spec2Isabelle
  imports Main "HOL-Library.Sublist"
begin

section \<open>JavaScript strings and arrays\<close>

text \<open>
  A JavaScript string is modelled as a \<^typ>\<open>string\<close>: a list of code units, each one a
  \<^typ>\<open>char\<close>, so the model covers the strings whose code units are below 256. Indices
  are \<^typ>\<open>int\<close>, because \<open>indexOf\<close> and \<open>lastIndexOf\<close> answer \<open>-1\<close> when nothing is
  found.
\<close>

definition startsWith :: "string \<Rightarrow> string \<Rightarrow> bool" where
  "startsWith s p = prefix p s"

text \<open>\<open>s.indexOf(needle)\<close>: the least position where \<open>needle\<close> occurs, or \<open>-1\<close>.\<close>

fun indexOf_from :: "nat \<Rightarrow> string \<Rightarrow> string \<Rightarrow> int" where
  "indexOf_from k [] needle = (if needle = [] then int k else - 1)"
| "indexOf_from k (c # cs) needle =
     (if prefix needle (c # cs) then int k else indexOf_from (Suc k) cs needle)"

definition indexOf :: "string \<Rightarrow> string \<Rightarrow> int" where
  "indexOf s needle = indexOf_from 0 s needle"

text \<open>\<open>s.lastIndexOf(needle)\<close>: the greatest position where \<open>needle\<close> occurs, or \<open>-1\<close>.\<close>

fun lastIndexOf_scan :: "nat \<Rightarrow> int \<Rightarrow> string \<Rightarrow> string \<Rightarrow> int" where
  "lastIndexOf_scan k best [] needle = (if needle = [] then int k else best)"
| "lastIndexOf_scan k best (c # cs) needle =
     lastIndexOf_scan (Suc k) (if prefix needle (c # cs) then int k else best) cs needle"

definition lastIndexOf :: "string \<Rightarrow> string \<Rightarrow> int" where
  "lastIndexOf s needle = lastIndexOf_scan 0 (- 1) s needle"

text \<open>
  \<open>s.substring(a, b)\<close>: both indices are clamped to \<open>0 .. length s\<close> and swapped when
  \<open>a > b\<close>. \<open>s.substr(start)\<close>: a negative start counts from the end.
\<close>

definition clamp_index :: "string \<Rightarrow> int \<Rightarrow> nat" where
  "clamp_index s i = min (nat i) (length s)"

definition substring :: "string \<Rightarrow> int \<Rightarrow> int \<Rightarrow> string" where
  "substring s a b =
     (let lo = min (clamp_index s a) (clamp_index s b);
          hi = max (clamp_index s a) (clamp_index s b)
      in take (hi - lo) (drop lo s))"

definition substr :: "string \<Rightarrow> int \<Rightarrow> string" where
  "substr s start =
     (if start < 0 then drop (nat (int (length s) + start)) s else drop (nat start) s)"

definition backslash :: char where
  "backslash = CHR 0x5C"

text \<open>\<open>s.replace(/\\/g, "/")\<close>: every backslash becomes a forward slash.\<close>

definition replace_backslashes :: "string \<Rightarrow> string" where
  "replace_backslashes s = map (\<lambda>c. if c = backslash then CHR ''/'' else c) s"

text \<open>\<open>xs.join(sep)\<close> on an array of strings.\<close>

fun join :: "string \<Rightarrow> string list \<Rightarrow> string" where
  "join sep [] = []"
| "join sep [x] = x"
| "join sep (x # y # ys) = x @ sep @ join sep (y # ys)"

text \<open>
  \<open>unique(array) = [...new Set(array)]\<close>: a \<open>Set\<close> keeps its members in insertion order
  and ignores the insertion of a member it already has, so the first occurrence of every
  value survives, in order.
\<close>

definition set_add :: "'a list \<Rightarrow> 'a \<Rightarrow> 'a list" where
  "set_add s x = (if x \<in> set s then s else s @ [x])"

definition unique :: "'a list \<Rightarrow> 'a list" where
  "unique array = foldl set_add [] array"

section \<open>The external collaborators\<close>

text \<open>
  The program calls Node's \<open>path\<close>, \<open>fs\<close> and \<open>process\<close> modules, the import resolver, the
  Solidity parser, \<open>find-up\<close> and the \<open>tsort\<close> package. None of them is code of the
  repository, so they are parameters of the model, gathered in one record. Functions that
  read the process's working directory take it as their first argument. The promises of
  \<open>Promise.all\<close> settle in an order that the code does not fix; \<open>first_rejection\<close> is the
  environment's choice: of the indices of the promises that reject, the one that rejects
  first.
\<close>

datatype js_error = Error string | TypeError string

record resolved =
  fileContents :: string
  filePath :: string

record externals =
  path_sep :: string
  path_join :: "string \<Rightarrow> string \<Rightarrow> string"
  path_normalize :: "string \<Rightarrow> string"
  path_resolve :: "string \<Rightarrow> string \<Rightarrow> string"
  path_relative :: "string \<Rightarrow> string \<Rightarrow> string \<Rightarrow> string"
  resolver_resolve :: "string \<Rightarrow> string \<Rightarrow> js_error + string"
  fs_readFileSync :: "string \<Rightarrow> js_error + string"
  fs_existsSync :: "string \<Rightarrow> string \<Rightarrow> bool"
  parser_imports :: "string \<Rightarrow> string + string list"
  tsort_sort :: "(string \<times> string) list \<Rightarrow> string + string list"
  findUp :: "string \<Rightarrow> string option"
  process_chdir :: "string \<Rightarrow> string \<Rightarrow> js_error + string"
  first_rejection :: "nat list \<Rightarrow> nat"

section \<open>Path normalisation and global names\<close>

text \<open>
  \<open>resolve(importPath)\<close>: the resolver finds the file, \<open>fs.readFileSync\<close> reads it; either
  may throw, and the error leaves \<open>resolve\<close> as it is.
\<close>

definition resolve :: "externals \<Rightarrow> string \<Rightarrow> string \<Rightarrow> js_error + resolved" where
  "resolve ext cwd importPath =
     (case resolver_resolve ext cwd importPath of
        Inl e \<Rightarrow> Inl e
      | Inr fp \<Rightarrow>
          (case fs_readFileSync ext fp of
             Inl e \<Rightarrow> Inl e
           | Inr contents \<Rightarrow> Inr \<lparr>fileContents = contents, filePath = fp\<rparr>))"

definition getDirPath :: "externals \<Rightarrow> string \<Rightarrow> string" where
  "getDirPath ext fp =
     (let index1 = lastIndexOf fp (path_sep ext);
          index2 = lastIndexOf fp ''/''
      in substring fp 0 (max index1 index2))"

definition is_relative_import :: "string \<Rightarrow> bool" where
  "is_relative_import dependency = (startsWith dependency ''./'' \<or> startsWith dependency ''../'')"

definition getNormalizedDependencyPath :: "externals \<Rightarrow> string \<Rightarrow> string \<Rightarrow> string" where
  "getNormalizedDependencyPath ext dependency fp =
     (let dependency' =
        (if is_relative_import dependency
         then path_normalize ext (path_join ext (getDirPath ext fp) dependency)
         else dependency)
      in replace_backslashes dependency')"

definition getFilePathsFromTruffleRoot ::
  "externals \<Rightarrow> string \<Rightarrow> string list \<Rightarrow> string \<Rightarrow> string list" where
  "getFilePathsFromTruffleRoot ext cwd filePaths truffleRoot =
     map (\<lambda>f. path_relative ext cwd truffleRoot (path_resolve ext cwd f)) filePaths"

definition fileNameToGlobalName :: "externals \<Rightarrow> string \<Rightarrow> string \<Rightarrow> string \<Rightarrow> string" where
  "fileNameToGlobalName ext cwd fileName truffleRoot =
     (let globalName = hd (getFilePathsFromTruffleRoot ext cwd [fileName] truffleRoot)
      in if indexOf globalName ''node_modules/'' \<noteq> - 1
         then substr globalName (indexOf globalName ''node_modules/'' + int (length ''node_modules/''))
         else globalName)"

section \<open>A POSIX instance of Node's \<open>path\<close> module\<close>

text \<open>
  The theorems below hold for every \<open>path\<close> module. To run the model on concrete inputs,
  this section gives the POSIX behaviour of the four functions the program calls:
  a path is cut at \<open>/\<close>, empty and \<open>.\<close> segments are dropped, and a \<open>..\<close> segment removes the
  segment before it (or is kept, in a relative path that climbs above its start).
\<close>

fun split_on :: "char \<Rightarrow> string \<Rightarrow> string list" where
  "split_on sep [] = [[]]"
| "split_on sep (c # cs) =
     (if c = sep then [] # split_on sep cs
      else (case split_on sep cs of [] \<Rightarrow> [[c]] | seg # segs \<Rightarrow> (c # seg) # segs))"

definition normalize_step :: "bool \<Rightarrow> string list \<Rightarrow> string \<Rightarrow> string list" where
  "normalize_step allowAboveRoot res seg =
     (if seg = [] \<or> seg = ''.'' then res
      else if seg = ''..'' then
        (if res \<noteq> [] \<and> last res \<noteq> ''..'' then butlast res
         else if allowAboveRoot then res @ [''..''] else res)
      else res @ [seg])"

definition normalizeSegments :: "bool \<Rightarrow> string \<Rightarrow> string list" where
  "normalizeSegments allowAboveRoot p =
     foldl (normalize_step allowAboveRoot) [] (split_on CHR ''/'' p)"

definition posix_isAbsolute :: "string \<Rightarrow> bool" where
  "posix_isAbsolute p = (case p of [] \<Rightarrow> False | c # _ \<Rightarrow> c = CHR ''/'')"

definition posix_normalize :: "string \<Rightarrow> string" where
  "posix_normalize p =
     (if p = [] then ''.''
      else
        (let isAbs = posix_isAbsolute p;
             trailing = (last p = CHR ''/'');
             body = join ''/'' (normalizeSegments (\<not> isAbs) p);
             body' = (if body = [] \<and> \<not> isAbs then ''.'' else body);
             body'' = (if body' \<noteq> [] \<and> trailing then body' @ ''/'' else body')
         in if isAbs then ''/'' @ body'' else body''))"

definition posix_join :: "string \<Rightarrow> string \<Rightarrow> string" where
  "posix_join a b =
     (let parts = filter (\<lambda>x. x \<noteq> []) [a, b]
      in if parts = [] then ''.'' else posix_normalize (join ''/'' parts))"

definition posix_resolve :: "string \<Rightarrow> string \<Rightarrow> string" where
  "posix_resolve cwd p =
     (let full = (if posix_isAbsolute p then p else if p = [] then cwd else cwd @ ''/'' @ p)
      in ''/'' @ join ''/'' (normalizeSegments False full))"

fun strip_common :: "string list \<Rightarrow> string list \<Rightarrow> string list \<times> string list" where
  "strip_common (x # xs) (y # ys) =
     (if x = y then strip_common xs ys else (x # xs, y # ys))"
| "strip_common xs ys = (xs, ys)"

definition posix_relative :: "string \<Rightarrow> string \<Rightarrow> string \<Rightarrow> string" where
  "posix_relative cwd from to =
     (let (fs, ts) = strip_common (normalizeSegments False (posix_resolve cwd from))
                                  (normalizeSegments False (posix_resolve cwd to))
      in join ''/'' (map (\<lambda>_. ''..'') fs @ ts))"


section \<open>Building the dependency graph\<close>

text \<open>
  \<open>getDependencies\<close>: the parser yields the raw import paths of a file, in source order,
  or throws; the \<open>catch\<close> wraps whatever was thrown in a new \<open>Error\<close> whose message
  names the file and ends with the text of the cause.
\<close>

definition getDependencies :: "externals \<Rightarrow> string \<Rightarrow> string \<Rightarrow> js_error + string list" where
  "getDependencies ext fp contents =
     (case parser_imports ext contents of
        Inl cause \<Rightarrow>
          Inl (Error (''Could not parse '' @ fp @ '' for extracting its imports: '' @ cause))
      | Inr imports \<Rightarrow> Inr (map (\<lambda>p. getNormalizedDependencyPath ext p fp) imports))"

text \<open>
  The \<open>tsort\<close> graph is the sequence of its \<open>add(a, b)\<close> calls. The traversal threads the
  graph and the array \<open>visitedFiles\<close>, both mutated in place by the source.
\<close>

type_synonym graph = "(string \<times> string) list"

definition graph_add :: "graph \<Rightarrow> string \<Rightarrow> string \<Rightarrow> graph" where
  "graph_add g a b = g @ [(a, b)]"

type_synonym dfs_state = "graph \<times> string list"

text \<open>
  \<open>dependenciesDfs\<close> recurses as deep as the import chains are long, and nothing in the
  code bounds them: the model takes fuel, the recursion depth allowed, and \<open>None\<close> means
  the fuel ran out. \<open>dfs_loop\<close> is the \<open>for\<close> loop over the dependencies of one file.
\<close>

fun dependenciesDfs ::
    "nat \<Rightarrow> externals \<Rightarrow> string \<Rightarrow> dfs_state \<Rightarrow> string \<Rightarrow> (js_error + dfs_state) option"
  and dfs_loop ::
    "nat \<Rightarrow> externals \<Rightarrow> string \<Rightarrow> dfs_state \<Rightarrow> string \<Rightarrow> string list \<Rightarrow> (js_error + dfs_state) option"
where
  "dependenciesDfs 0 ext cwd st fp = None"
| "dependenciesDfs (Suc n) ext cwd st fp =
     (let st1 = (fst st, snd st @ [fp]) in
      case resolve ext cwd fp of
        Inl e \<Rightarrow> Some (Inl e)
      | Inr r \<Rightarrow>
          (case getDependencies ext (filePath r) (fileContents r) of
             Inl e \<Rightarrow> Some (Inl e)
           | Inr dependencies \<Rightarrow> dfs_loop n ext cwd st1 fp dependencies))"
| "dfs_loop n ext cwd st fp [] = Some (Inr st)"
| "dfs_loop n ext cwd st fp (dependency # rest) =
     (let g = graph_add (fst st) dependency fp in
      if dependency \<in> set (snd st) then dfs_loop n ext cwd (g, snd st) fp rest
      else
        (case dependenciesDfs n ext cwd (g, snd st) dependency of
           None \<Rightarrow> None
         | Some (Inl e) \<Rightarrow> Some (Inl e)
         | Some (Inr st') \<Rightarrow> dfs_loop n ext cwd st' fp rest))"

text \<open>The loop of \<open>getSortedFilePaths\<close> over the entry points.\<close>

fun dfs_entries ::
    "nat \<Rightarrow> externals \<Rightarrow> string \<Rightarrow> dfs_state \<Rightarrow> string list \<Rightarrow> (js_error + dfs_state) option" where
  "dfs_entries n ext cwd st [] = Some (Inr st)"
| "dfs_entries n ext cwd st (entryPoint # rest) =
     (case dependenciesDfs n ext cwd st entryPoint of
        None \<Rightarrow> None
      | Some (Inl e) \<Rightarrow> Some (Inl e)
      | Some (Inr st') \<Rightarrow> dfs_entries n ext cwd st' rest)"

section \<open>Sorting\<close>

definition str_includes :: "string \<Rightarrow> string \<Rightarrow> bool" where
  "str_includes s sub = (indexOf s sub \<noteq> - 1)"

definition cycle_marker :: string where
  "cycle_marker = ''Error: There is a cycle in the graph.''"

definition cycle_message :: "string list \<Rightarrow> string" where
  "cycle_message visitedFiles =
     ''There is a cycle in the dependency'' @
     '' graph, can't compute topological ordering. Files:'' @ [CHR 0x0A, CHR 0x09] @
     join [CHR 0x0A, CHR 0x09] visitedFiles"

text \<open>
  \<open>tsort_sort\<close> answers the sorted nodes, or the text (\<open>e.toString()\<close>) of what
  \<open>graph.sort()\<close> threw. The \<open>catch\<close> of \<open>getSortedFilePaths\<close> throws a new error for a
  cycle and drops every other error; \<open>topologicalSortedFiles\<close> is then \<open>undefined\<close> and
  the call of \<open>concat\<close> on it throws a \<open>TypeError\<close> (its message is the engine's, the text
  here stands for it).
\<close>

definition sort_graph :: "externals \<Rightarrow> graph \<Rightarrow> string list \<Rightarrow> js_error + string list" where
  "sort_graph ext g visitedFiles =
     (case tsort_sort ext g of
        Inr topologicalSortedFiles \<Rightarrow> Inr topologicalSortedFiles
      | Inl e \<Rightarrow>
          if str_includes e cycle_marker then Inl (Error (cycle_message visitedFiles))
          else Inl (TypeError ''Cannot read property concat of undefined''))"

definition getSortedFilePaths ::
    "nat \<Rightarrow> externals \<Rightarrow> string \<Rightarrow> string list \<Rightarrow> string \<Rightarrow> (js_error + string list) option" where
  "getSortedFilePaths n ext cwd entryPoints truffleRoot =
     (case dfs_entries n ext cwd ([], []) entryPoints of
        None \<Rightarrow> None
      | Some (Inl e) \<Rightarrow> Some (Inl e)
      | Some (Inr (g, visitedFiles)) \<Rightarrow>
          (case sort_graph ext g visitedFiles of
             Inl e \<Rightarrow> Some (Inl e)
           | Inr topologicalSortedFiles \<Rightarrow>
               Some (Inr (unique (map (\<lambda>f. fileNameToGlobalName ext cwd f truffleRoot)
                                      (topologicalSortedFiles @ entryPoints))))))"


section \<open>Cleaning a file\<close>

text \<open>
  The three regular expressions carry the flags \<open>g\<close> and \<open>m\<close>: \<open>^\<close> and \<open>$\<close> match at the
  line boundaries, \<open>.\<close> matches every code unit but a line terminator, and \<open>\s\<close> matches
  white space, line terminators included. Among the code units below 256 the line
  terminators are LF and CR, and the white space is TAB, LF, VT, FF, CR, SP and NBSP.
\<close>

definition is_line_terminator :: "char \<Rightarrow> bool" where
  "is_line_terminator c = (c = CHR 0x0A \<or> c = CHR 0x0D)"

definition is_whitespace :: "char \<Rightarrow> bool" where
  "is_whitespace c =
     (c = CHR 0x09 \<or> c = CHR 0x0A \<or> c = CHR 0x0B \<or> c = CHR 0x0C \<or> c = CHR 0x0D \<or>
      c = CHR 0x20 \<or> c = CHR 0xA0)"

text \<open>
  \<open>/^pragma solidity .*;$/gm\<close> and \<open>/^pragma experimental .*;$/gm\<close>: since \<open>.\<close> stops at
  a line terminator, a match is a whole line, one that starts with the keyword text and
  ends with a semicolon placed after it. \<open>split_lines\<close> cuts a text at every line
  terminator; \<open>match\<close> answers the matching lines in order (and the source turns the
  \<open>null\<close> of no match into the empty array); \<open>replace\<close> empties them and keeps the
  terminators.
\<close>

fun split_lines :: "string \<Rightarrow> string \<Rightarrow> string list" where
  "split_lines cur [] = [cur]"
| "split_lines cur (c # cs) =
     (if is_line_terminator c then cur # split_lines [] cs else split_lines (cur @ [c]) cs)"

definition is_pragma_line :: "string \<Rightarrow> string \<Rightarrow> bool" where
  "is_pragma_line keyword l =
     (prefix keyword l \<and> length keyword < length l \<and> last l = CHR '';'')"

definition match_pragma :: "string \<Rightarrow> string \<Rightarrow> string list" where
  "match_pragma keyword contents = filter (is_pragma_line keyword) (split_lines [] contents)"

fun replace_pragma :: "string \<Rightarrow> string \<Rightarrow> string \<Rightarrow> string" where
  "replace_pragma keyword cur [] = (if is_pragma_line keyword cur then [] else cur)"
| "replace_pragma keyword cur (c # cs) =
     (if is_line_terminator c
      then (if is_pragma_line keyword cur then [] else cur) @ c # replace_pragma keyword [] cs
      else replace_pragma keyword (cur @ [c]) cs)"

definition VERSION_SOLIDITY :: string where
  "VERSION_SOLIDITY = ''pragma solidity ''"

definition EXPERIMENTAL_SOLIDITY :: string where
  "EXPERIMENTAL_SOLIDITY = ''pragma experimental ''"

text \<open>
  \<open>/^\s*import(\s+).*$/gm\<close>: a match starts at a line start, runs over all the white space
  there (over line terminators too), then \<open>import\<close>, then at least one white space and all
  that follows it, then the rest of that line. \<open>import_match\<close> answers what is left of
  the text after a match that starts at its first position.
\<close>

definition import_match :: "string \<Rightarrow> string option" where
  "import_match r =
     (let r1 = dropWhile is_whitespace r in
      if prefix ''import'' r1 then
        (case drop 6 r1 of
           [] \<Rightarrow> None
         | c # rest \<Rightarrow>
             if is_whitespace c
             then Some (dropWhile (\<lambda>x. \<not> is_line_terminator x) (dropWhile is_whitespace rest))
             else None)
      else None)"

lemma import_match_shorter: "import_match r = Some rest \<Longrightarrow> length rest < length r"
proof -
  assume a: "import_match r = Some rest"
  define r1 where "r1 = dropWhile is_whitespace r"
  from a obtain c rest0 where d: "drop 6 r1 = c # rest0"
    and rest: "rest = dropWhile (\<lambda>x. \<not> is_line_terminator x) (dropWhile is_whitespace rest0)"
    by (auto simp: import_match_def r1_def Let_def split: if_splits list.splits)
  have "length rest \<le> length rest0"
    unfolding rest using length_dropWhile_le le_trans by blast
  moreover have "length rest0 < length (drop 6 r1)" using d by simp
  moreover have "length (drop 6 r1) \<le> length r1" by simp
  moreover have "length r1 \<le> length r" unfolding r1_def by (rule length_dropWhile_le)
  ultimately show ?thesis by linarith
qed

text \<open>
  \<open>replace(IMPORT_SOLIDITY_REGEX, "")\<close> scans the text from the left; \<open>atStart\<close> says that
  the position is a line start. After a match the scan goes on where the match ended,
  a line start when the last code unit of the match is a line terminator.
\<close>

function strip_imports :: "bool \<Rightarrow> string \<Rightarrow> string" where
  "strip_imports atStart [] = []"
| "strip_imports atStart (c # cs) =
     (case (if atStart then import_match (c # cs) else None) of
        Some rest \<Rightarrow>
          strip_imports
            (is_line_terminator (last (take (length (c # cs) - length rest) (c # cs)))) rest
      | None \<Rightarrow> c # strip_imports (is_line_terminator c) cs)"
  by pat_completeness auto
termination
  by (relation "measure (\<lambda>(b, s). length s)")
     (auto split: if_splits dest: import_match_shorter)

definition trim :: "string \<Rightarrow> string" where
  "trim s = rev (dropWhile is_whitespace (rev (dropWhile is_whitespace s)))"

text \<open>\<open>cleanFile\<close> answers the cleaned body, the version pragmas and the experimental pragmas.\<close>

definition clean_contents :: "string \<Rightarrow> string \<times> string list \<times> string list" where
  "clean_contents contents =
     (let version = match_pragma VERSION_SOLIDITY contents;
          experimentals = match_pragma EXPERIMENTAL_SOLIDITY contents;
          clean = trim (replace_pragma EXPERIMENTAL_SOLIDITY []
                    (replace_pragma VERSION_SOLIDITY [] (strip_imports True contents)))
      in (clean, version, experimentals))"

definition cleanFile ::
    "externals \<Rightarrow> string \<Rightarrow> string \<Rightarrow> js_error + (string \<times> string list \<times> string list)" where
  "cleanFile ext cwd fp =
     (case resolve ext cwd fp of
        Inl e \<Rightarrow> Inl e
      | Inr r \<Rightarrow> Inr (clean_contents (fileContents r)))"


section \<open>Concatenation and the sink\<close>

text \<open>
  \<open>Promise.all(files.map(cleanFile))\<close>: every file is cleaned. When no promise rejects,
  the result is the list of the results, in the order of the files. When some reject,
  \<open>Promise.all\<close> rejects with the error of the one that rejects first, whatever its
  index: \<open>promise_all first results\<close> asks \<open>first\<close> which of the rejecting indices that
  is (an answer that is not one of them counts as the least). The sink \<open>log\<close> is
  modelled by the list of the chunks it receives, in order.
\<close>

definition promise_all :: "(nat list \<Rightarrow> nat) \<Rightarrow> ('e + 'a) list \<Rightarrow> 'e + 'a list" where
  "promise_all first results =
     (case filter (\<lambda>i. isl (results ! i)) [0..<length results] of
        [] \<Rightarrow> Inr (map projr results)
      | i # rest \<Rightarrow>
          Inl (projl (results !
            (if first (i # rest) \<in> set (i # rest) then first (i # rest) else i))))"

definition file_marker :: "string \<Rightarrow> string" where
  "file_marker name = [CHR 0x0A] @ ''// File: '' @ name @ [CHR 0x0A]"

definition reduce_step ::
    "string \<times> string list \<times> string list \<Rightarrow> string \<times> (string \<times> string list \<times> string list)
      \<Rightarrow> string \<times> string list \<times> string list" where
  "reduce_step acc item =
     (case acc of (output_acc, versions_acc, experimentals_acc) \<Rightarrow>
      case item of (name, output, versions, experimentals) \<Rightarrow>
        (output_acc @ file_marker name @ output,
         versions_acc @ versions,
         experimentals_acc @ experimentals))"

definition emit_chunks :: "string \<times> string list \<times> string list \<Rightarrow> string list" where
  "emit_chunks r =
     (case r of (output, versions, experimentals) \<Rightarrow>
        (case versions of [] \<Rightarrow> [] | v # _ \<Rightarrow> [v]) @ unique experimentals @ [output])"

definition printConcatenation :: "externals \<Rightarrow> string \<Rightarrow> string list \<Rightarrow> js_error + string list" where
  "printConcatenation ext cwd files =
     (case promise_all (first_rejection ext) (map (cleanFile ext cwd) files) of
        Inl e \<Rightarrow> Inl e
      | Inr cleanFiles \<Rightarrow>
          Inr (emit_chunks (foldl reduce_step ([], [], []) (zip files cleanFiles))))"

section \<open>The flatten operation\<close>

definition root_not_found_message :: string where
  "root_not_found_message =
     [CHR 0x0A] @ ''      Truffle Flattener must be run inside a Truffle project:'' @
     [CHR 0x0A] @ ''      truffle.js or truffle-config.js not found'' @
     [CHR 0x0A] @ ''    ''"

definition getTruffleRoot :: "externals \<Rightarrow> string \<Rightarrow> js_error + string" where
  "getTruffleRoot ext cwd =
     (case findUp ext cwd of
        None \<Rightarrow> Inl (Error root_not_found_message)
      | Some truffleConfigPath \<Rightarrow>
          if truffleConfigPath = [] then Inl (Error root_not_found_message)
          else Inr (getDirPath ext truffleConfigPath))"

text \<open>
  The outcome of \<open>flatten\<close>, the working directory of the process when it ends, and the
  chunks the sink received. \<open>root\<close> is optional, and an empty string counts as absent
  (it is falsy). \<open>process_chdir ext cwd dir\<close> answers the new working directory, or what
  \<open>process.chdir\<close> threw.
\<close>

record flatten_result =
  outcome :: "js_error + unit"
  cwd_after :: string
  emitted :: "string list"

definition truthy :: "string option \<Rightarrow> string option" where
  "truthy root = (case root of None \<Rightarrow> None | Some r \<Rightarrow> if r = [] then None else Some r)"

definition failed :: "js_error \<Rightarrow> string \<Rightarrow> flatten_result" where
  "failed e cwd = \<lparr>outcome = Inl e, cwd_after = cwd, emitted = []\<rparr>"

text \<open>The part of \<open>flatten\<close> that runs inside the project root, after \<open>process.chdir\<close>.\<close>

definition flatten_in_root ::
    "nat \<Rightarrow> externals \<Rightarrow> string \<Rightarrow> string \<Rightarrow> string list \<Rightarrow> string \<Rightarrow> flatten_result option" where
  "flatten_in_root n ext wd cwd filePathsFromTruffleRoot truffleRoot =
     (case getSortedFilePaths n ext cwd filePathsFromTruffleRoot truffleRoot of
        None \<Rightarrow> None
      | Some (Inl e) \<Rightarrow> Some (failed e cwd)
      | Some (Inr sortedFiles) \<Rightarrow>
          (case printConcatenation ext cwd sortedFiles of
             Inl e \<Rightarrow> Some (failed e cwd)
           | Inr chunks \<Rightarrow>
               (case process_chdir ext cwd wd of
                  Inl e \<Rightarrow> Some \<lparr>outcome = Inl e, cwd_after = cwd, emitted = chunks\<rparr>
                | Inr cwd' \<Rightarrow> Some \<lparr>outcome = Inr (), cwd_after = cwd', emitted = chunks\<rparr>)))"

text \<open>The part of \<open>flatten\<close> that follows the choice of \<open>truffleRoot\<close>.\<close>

definition flatten_with_root ::
    "nat \<Rightarrow> externals \<Rightarrow> string \<Rightarrow> string list \<Rightarrow> string \<Rightarrow> flatten_result option" where
  "flatten_with_root n ext cwd filePaths truffleRoot =
     (let filePathsFromTruffleRoot = getFilePathsFromTruffleRoot ext cwd filePaths truffleRoot;
          wd = cwd
      in case process_chdir ext cwd truffleRoot of
           Inl e \<Rightarrow> Some (failed e cwd)
         | Inr cwd1 \<Rightarrow> flatten_in_root n ext wd cwd1 filePathsFromTruffleRoot truffleRoot)"

definition flatten ::
    "nat \<Rightarrow> externals \<Rightarrow> string \<Rightarrow> string list \<Rightarrow> string option \<Rightarrow> flatten_result option" where
  "flatten n ext cwd filePaths root =
     (case truthy root of
        Some r \<Rightarrow>
          if \<not> fs_existsSync ext cwd r
          then Some (failed (Error ''The specified root directory does not exist'') cwd)
          else flatten_with_root n ext cwd filePaths r
      | None \<Rightarrow>
          (case getTruffleRoot ext cwd of
             Inl e \<Rightarrow> Some (failed e cwd)
           | Inr truffleRoot \<Rightarrow> flatten_with_root n ext cwd filePaths truffleRoot))"


section \<open>A concrete environment\<close>

text \<open>
  To run the model, the externals are instantiated: the POSIX \<open>path\<close> functions, a file
  system given as a list of absolute paths with their contents, a resolver that looks a
  path up from the working directory and then under \<open>node_modules\<close>, an import extractor
  for files whose import directives are lines of the form \<open>import "path";\<close>, promises
  that reject in the order of their indices, and a depth-first topological sort in the
  place of \<open>graph.sort()\<close>. The sort is not the code of the \<open>tsort\<close> package, which is not
  part of the repository: it is a sorter that meets the contract stated below
  (\<open>tsort_orders\<close>, \<open>tsort_detects_cycles\<close>), and the order in which it lists nodes that no
  edge relates may differ from the package's. It takes the nodes in insertion order,
  marks a node while its successors are visited, puts it in front of the result when
  they are done, and fails with the text of the cycle error when a marked node is met
  again.
\<close>

definition graph_nodes :: "graph \<Rightarrow> string list" where
  "graph_nodes g = unique (concat (map (\<lambda>e. [fst e, snd e]) g))"

definition graph_succs :: "graph \<Rightarrow> string \<Rightarrow> string list" where
  "graph_succs g node = map snd (filter (\<lambda>e. fst e = node) g)"

definition tsort_cycle_text :: string where
  "tsort_cycle_text =
     ''Error: There is a cycle in the graph. It is not possible to derive a topological sort.''"

fun tsort_visit ::
    "nat \<Rightarrow> graph \<Rightarrow> string list \<Rightarrow> string list \<Rightarrow> string \<Rightarrow> (string + string list) option"
  and tsort_visit_all ::
    "nat \<Rightarrow> graph \<Rightarrow> string list \<Rightarrow> string list \<Rightarrow> string list \<Rightarrow> (string + string list) option"
where
  "tsort_visit 0 g temp perm node = None"
| "tsort_visit (Suc n) g temp perm node =
     (if node \<in> set temp then Some (Inl tsort_cycle_text)
      else if node \<in> set perm then Some (Inr perm)
      else
        (case tsort_visit_all n g (node # temp) perm (graph_succs g node) of
           None \<Rightarrow> None
         | Some (Inl e) \<Rightarrow> Some (Inl e)
         | Some (Inr perm') \<Rightarrow> Some (Inr (node # perm'))))"
| "tsort_visit_all n g temp perm [] = Some (Inr perm)"
| "tsort_visit_all n g temp perm (node # rest) =
     (case tsort_visit n g temp perm node of
        None \<Rightarrow> None
      | Some (Inl e) \<Rightarrow> Some (Inl e)
      | Some (Inr perm') \<Rightarrow> tsort_visit_all n g temp perm' rest)"

definition tsort_dfs :: "graph \<Rightarrow> string + string list" where
  "tsort_dfs g =
     (case tsort_visit_all (Suc (length (graph_nodes g))) g [] [] (graph_nodes g) of
        None \<Rightarrow> Inl ''RangeError: Maximum call stack size exceeded''
      | Some r \<Rightarrow> r)"

definition import_of_line :: "string \<Rightarrow> string list" where
  "import_of_line l =
     (if prefix (''import '' @ [CHR 0x22]) l
      then [takeWhile (\<lambda>c. c \<noteq> CHR 0x22) (drop 8 l)] else [])"

definition line_imports :: "string \<Rightarrow> string + string list" where
  "line_imports contents = Inr (concat (map import_of_line (split_lines [] contents)))"

type_synonym file_system = "(string \<times> string) list"

definition fs_resolver :: "file_system \<Rightarrow> string \<Rightarrow> string \<Rightarrow> js_error + string" where
  "fs_resolver files cwd p =
     (if posix_resolve cwd p \<in> fst ` set files then Inr (posix_resolve cwd p)
      else if posix_resolve cwd (''node_modules/'' @ p) \<in> fst ` set files
      then Inr (posix_resolve cwd (''node_modules/'' @ p))
      else Inl (Error (''None of the sub-resolvers resolved '' @ p)))"

definition fs_read :: "file_system \<Rightarrow> string \<Rightarrow> js_error + string" where
  "fs_read files p =
     (case map_of files p of
        None \<Rightarrow> Inl (Error (''ENOENT: no such file or directory, open '' @ p))
      | Some contents \<Rightarrow> Inr contents)"

definition posix_ext :: "file_system \<Rightarrow> externals" where
  "posix_ext files =
     \<lparr>path_sep = ''/'', path_join = posix_join, path_normalize = posix_normalize,
      path_resolve = posix_resolve, path_relative = posix_relative,
      resolver_resolve = fs_resolver files, fs_readFileSync = fs_read files,
      fs_existsSync = (\<lambda>cwd p. True), parser_imports = line_imports,
      tsort_sort = tsort_dfs, findUp = (\<lambda>cwd. None),
      process_chdir = (\<lambda>cwd dir. Inr (posix_resolve cwd dir)),
      first_rejection = hd\<rparr>"

section \<open>What the traversal guarantees\<close>

text \<open>
  \<open>imports_of\<close> is the list of the normalised imports of a file, as one traversal step
  finds them. \<open>visit_post\<close> and \<open>loop_post\<close> are the postconditions of
  \<open>dependenciesDfs\<close> and of its loop: the graph and \<open>visitedFiles\<close> only grow, the files
  entered below the starting file are new and pairwise different, and the number of
  edges \<open>(d, v)\<close> added is the number of traversals of \<open>v\<close> times the number of imports of
  \<open>v\<close> that normalise to \<open>d\<close>.
\<close>

definition imports_of :: "externals \<Rightarrow> string \<Rightarrow> string \<Rightarrow> string list" where
  "imports_of ext cwd v =
     (case resolve ext cwd v of
        Inl e \<Rightarrow> []
      | Inr r \<Rightarrow>
          (case getDependencies ext (filePath r) (fileContents r) of
             Inl e \<Rightarrow> []
           | Inr dependencies \<Rightarrow> dependencies))"

definition visit_post :: "externals \<Rightarrow> string \<Rightarrow> dfs_state \<Rightarrow> string \<Rightarrow> dfs_state \<Rightarrow> bool" where
  "visit_post ext cwd st fp st' =
     (\<exists>es more. fst st' = fst st @ es \<and> snd st' = snd st @ fp # more \<and> distinct more \<and>
        set more \<inter> insert fp (set (snd st)) = {} \<and>
        (\<forall>d v. count_list es (d, v) =
                 count_list (fp # more) v * count_list (imports_of ext cwd v) d))"

definition loop_post ::
    "externals \<Rightarrow> string \<Rightarrow> dfs_state \<Rightarrow> string \<Rightarrow> string list \<Rightarrow> dfs_state \<Rightarrow> bool" where
  "loop_post ext cwd st fp deps st' =
     (\<exists>es more. fst st' = fst st @ es \<and> snd st' = snd st @ more \<and> distinct more \<and>
        set more \<inter> set (snd st) = {} \<and>
        (\<forall>d v. count_list es (d, v) =
                 (if v = fp then count_list deps d else 0) +
                 count_list more v * count_list (imports_of ext cwd v) d))"

text \<open>
  \<open>visitedFiles\<close> lists the calls of \<open>dependenciesDfs\<close>, in order. A run over the entry
  points makes one block of it for each entry point: the entry point, which the loop of
  \<open>getSortedFilePaths\<close> enters, and then the identifiers entered through an import below
  it. \<open>fresh_blocks seen blocks\<close> says of the identifiers entered through an import that
  each was absent from \<open>visitedFiles\<close> when it was entered: those of a block are pairwise
  different, and none of them is the entry point of the block or was visited before the
  block (\<open>seen\<close>). It says nothing of the entry points themselves.
\<close>

fun fresh_blocks :: "string list \<Rightarrow> (string \<times> string list) list \<Rightarrow> bool" where
  "fresh_blocks seen [] = True"
| "fresh_blocks seen (block # rest) =
     (distinct (snd block) \<and> set (snd block) \<inter> insert (fst block) (set seen) = {} \<and>
      fresh_blocks (seen @ fst block # snd block) rest)"

definition visits_of :: "(string \<times> string list) list \<Rightarrow> string list" where
  "visits_of blocks = concat (map (\<lambda>block. fst block # snd block) blocks)"

text \<open>A project with two files, \<open>A.sol\<close> importing \<open>contracts/B.sol\<close>.\<close>

definition fs_two_entries :: file_system where
  "fs_two_entries =
     [(''/proj/contracts/A.sol'',
         ''import '' @ [CHR 0x22] @ ''contracts/B.sol'' @ [CHR 0x22] @ '';'' @ [CHR 0x0A] @
         ''contract A {}''),
      (''/proj/contracts/B.sol'', ''contract B {}'')]"

section \<open>Order, cycles and the contract of the sorter\<close>

text \<open>
  \<open>index_in xs x\<close> is the position of the first \<open>x\<close> in \<open>xs\<close>, and \<open>precedes xs a b\<close> says
  that both occur and \<open>a\<close> comes first. \<open>body_of\<close>, \<open>versions_of\<close> and
  \<open>experimentals_of\<close> name the three parts \<open>cleanFile\<close> answers for a file.
  \<open>tsort_orders\<close> and \<open>tsort_detects_cycles\<close> state, at one graph, what the program
  expects of \<open>graph.sort()\<close>: a result that lists nodes of the graph and puts the first
  end of every edge before the second, and an error whose text has the cycle marker
  when the graph has a cycle. The file systems are the projects the theorems are run on.
\<close>

definition index_in :: "'a list \<Rightarrow> 'a \<Rightarrow> nat" where
  "index_in xs x = length (takeWhile (\<lambda>y. y \<noteq> x) xs)"

definition precedes :: "'a list \<Rightarrow> 'a \<Rightarrow> 'a \<Rightarrow> bool" where
  "precedes xs a b = (a \<in> set xs \<and> b \<in> set xs \<and> index_in xs a < index_in xs b)"

definition body_of :: "externals \<Rightarrow> string \<Rightarrow> string \<Rightarrow> string" where
  "body_of ext cwd name = (case cleanFile ext cwd name of Inl e \<Rightarrow> [] | Inr c \<Rightarrow> fst c)"

definition versions_of :: "externals \<Rightarrow> string \<Rightarrow> string \<Rightarrow> string list" where
  "versions_of ext cwd name =
     (case cleanFile ext cwd name of Inl e \<Rightarrow> [] | Inr c \<Rightarrow> fst (snd c))"

definition experimentals_of :: "externals \<Rightarrow> string \<Rightarrow> string \<Rightarrow> string list" where
  "experimentals_of ext cwd name =
     (case cleanFile ext cwd name of Inl e \<Rightarrow> [] | Inr c \<Rightarrow> snd (snd c))"

definition global_name :: "externals \<Rightarrow> string \<Rightarrow> string \<Rightarrow> string \<Rightarrow> string" where
  "global_name ext cwd truffleRoot f = fileNameToGlobalName ext cwd f truffleRoot"

definition import_line :: "string \<Rightarrow> string" where
  "import_line p = ''import '' @ [CHR 0x22] @ p @ [CHR 0x22] @ '';''"

definition text_lines :: "string list \<Rightarrow> string" where
  "text_lines ls = join [CHR 0x0A] ls"

definition fs_cycle :: file_system where
  "fs_cycle =
     [(''/proj/contracts/A.sol'', text_lines [import_line ''./B.sol'', ''contract A {}'']),
      (''/proj/contracts/B.sol'', text_lines [import_line ''./A.sol'', ''contract B {}''])]"

definition fs_collision :: file_system where
  "fs_collision =
     [(''/proj/lib/Token.sol'',
         text_lines [import_line ''../node_modules/lib/Token.sol'', ''contract Token is Base {}'']),
      (''/proj/node_modules/lib/Token.sol'', ''contract Base {}'')]"

definition fs_shadow :: file_system where
  "fs_shadow =
     [(''/proj/contracts/T.sol'',
         text_lines [import_line ''../node_modules/lib/X.sol'', ''contract T is Base {}'']),
      (''/proj/lib/X.sol'', ''contract Other {}''),
      (''/proj/node_modules/lib/X.sol'', ''contract Base {}'')]"

definition fs_chain :: file_system where
  "fs_chain =
     [(''/proj/contracts/F1.sol'',
         text_lines [''pragma solidity ^0.4.0;'', import_line ''./F2.sol'', ''contract F1 {}'']),
      (''/proj/contracts/F2.sol'',
         text_lines [''pragma solidity ^0.5.0;'', ''contract F2 {}''])]"

definition fs_shared :: file_system where
  "fs_shared =
     [(''/proj/contracts/A.sol'', text_lines [import_line ''./C.sol'', ''contract A {}'']),
      (''/proj/contracts/B.sol'', text_lines [import_line ''./A.sol'', ''contract B {}'']),
      (''/proj/contracts/C.sol'', ''contract C {}'')]"

definition fs_alias :: file_system where
  "fs_alias =
     [(''/proj/contracts/A.sol'',
         text_lines [import_line ''./B.sol'', import_line ''contracts/B.sol'',
                     import_line ''contracts/./B.sol'', ''contract A {}'']),
      (''/proj/contracts/B.sol'', ''contract B {}'')]"

definition fs_diamond :: file_system where
  "fs_diamond =
     [(''/proj/contracts/A.sol'',
         text_lines [import_line ''./B.sol'', import_line ''./C.sol'', ''contract A {}'']),
      (''/proj/contracts/B.sol'', text_lines [import_line ''./D.sol'', ''contract B {}'']),
      (''/proj/contracts/C.sol'', text_lines [import_line ''./D.sol'', ''contract C {}'']),
      (''/proj/contracts/D.sol'', ''contract D {}''),
      (''/proj/contracts/E.sol'', text_lines [import_line ''./D.sol'', ''contract E {}''])]"

definition has_cycle :: "graph \<Rightarrow> bool" where
  "has_cycle g = (\<exists>a. (a, a) \<in> (set g)\<^sup>+)"

definition tsort_detects_cycles :: "externals \<Rightarrow> graph \<Rightarrow> bool" where
  "tsort_detects_cycles ext g =
     (has_cycle g \<longrightarrow> (\<exists>e. tsort_sort ext g = Inl e \<and> str_includes e cycle_marker))"

definition tsort_orders :: "externals \<Rightarrow> graph \<Rightarrow> bool" where
  "tsort_orders ext g =
     (\<forall>topologicalSortedFiles. tsort_sort ext g = Inr topologicalSortedFiles \<longrightarrow>
        set topologicalSortedFiles \<subseteq> fst ` set g \<union> snd ` set g \<and>
        (\<forall>e\<in>set g. precedes topologicalSortedFiles (fst e) (snd e)))"

section \<open>The working directory\<close>

text \<open>
  \<open>chosen_root\<close> is the project root \<open>flatten\<close> settles on, or the error it fails with
  before it touches the working directory. \<open>chdir_lands ext wd\<close> says of the operating
  system that a \<open>process.chdir(wd)\<close> that succeeds leads to \<open>wd\<close>, as it does for the
  absolute path \<open>process.cwd()\<close> answers.
\<close>

definition chosen_root :: "externals \<Rightarrow> string \<Rightarrow> string option \<Rightarrow> js_error + string" where
  "chosen_root ext cwd root =
     (case truthy root of
        Some r \<Rightarrow>
          if \<not> fs_existsSync ext cwd r
          then Inl (Error ''The specified root directory does not exist'') else Inr r
      | None \<Rightarrow> getTruffleRoot ext cwd)"

definition chdir_lands :: "externals \<Rightarrow> string \<Rightarrow> bool" where
  "chdir_lands ext wd = (\<forall>c c'. process_chdir ext c wd = Inr c' \<longrightarrow> c' = wd)"

section \<open>Errors of the traversal\<close>



definition fs_bad_name :: file_system where
  "fs_bad_name = [(''/proj/my_node_modules/X.sol'', ''contract X {}'')]"



section \<open>Pragmas and bodies\<close>

text \<open>
  \<open>untrimmed_body\<close> is the body of a file before \<open>trim\<close>: the contents with the import
  statements removed and the pragma lines emptied. \<open>blank_pragma\<close> is what \<open>replace\<close> does
  to one line.
\<close>

definition untrimmed_body :: "string \<Rightarrow> string" where
  "untrimmed_body contents =
     replace_pragma EXPERIMENTAL_SOLIDITY []
       (replace_pragma VERSION_SOLIDITY [] (strip_imports True contents))"

definition blank_pragma :: "string \<Rightarrow> string \<Rightarrow> string" where
  "blank_pragma keyword l = (if is_pragma_line keyword l then [] else l)"



section \<open>Finite projects\<close>

text \<open>
  \<open>import_closed ext cwd U\<close>: every import of a file of \<open>U\<close> is in \<open>U\<close>.
\<close>

definition import_closed :: "externals \<Rightarrow> string \<Rightarrow> string set \<Rightarrow> bool" where
  "import_closed ext cwd U = (\<forall>v\<in>U. set (imports_of ext cwd v) \<subseteq> U)"

section \<open>The invariant of the depth-first sort\<close>

text \<open>
  \<open>closed_sorted g perm\<close>: the nodes done so far are pairwise different, and every
  successor of a node of \<open>perm\<close> is in \<open>perm\<close>, after the node.
\<close>

definition closed_sorted :: "graph \<Rightarrow> string list \<Rightarrow> bool" where
  "closed_sorted g perm =
     (distinct perm \<and> (\<forall>a\<in>set perm. \<forall>b\<in>set (graph_succs g a). precedes perm a b))"

section \<open>Facts about the string and array helpers\<close>

lemma foldl_set_add_set: "set (foldl set_add acc xs) = set acc \<union> set xs"
  by (induction xs arbitrary: acc) (auto simp: set_add_def)

lemma foldl_set_add_distinct: "distinct acc \<Longrightarrow> distinct (foldl set_add acc xs)"
  by (induction xs arbitrary: acc) (auto simp: set_add_def)

lemma set_unique: "set (unique xs) = set xs"
  by (simp add: unique_def foldl_set_add_set)

lemma distinct_unique: "distinct (unique xs)"
  by (simp add: unique_def foldl_set_add_distinct)

lemma replace_backslashes_free: "backslash \<notin> set (replace_backslashes s)"
  by (auto simp: replace_backslashes_def backslash_def)

lemma replace_backslashes_id: "backslash \<notin> set s \<Longrightarrow> replace_backslashes s = s"
  by (induction s) (auto simp: replace_backslashes_def)

lemma replace_backslashes_changes: "backslash \<in> set s \<Longrightarrow> replace_backslashes s \<noteq> s"
  using replace_backslashes_free by metis

lemma indexOf_from_range: "indexOf_from k s needle = - 1 \<or> int k \<le> indexOf_from k s needle"
  by (induction k s needle rule: indexOf_from.induct) auto

lemma indexOf_from_none: "indexOf_from k s needle = - 1 \<longleftrightarrow> \<not> sublist needle s"
proof (induction k s needle rule: indexOf_from.induct)
  case (1 k needle)
  then show ?case by auto
next
  case (2 k c cs needle)
  then show ?case by (auto simp: sublist_Cons_right)
qed

lemma indexOf_from_found:
  "indexOf_from k s needle = int (k + i) \<Longrightarrow>
     i \<le> length s \<and> prefix needle (drop i s) \<and> (\<forall>j<i. \<not> prefix needle (drop j s))"
proof (induction k s needle arbitrary: i rule: indexOf_from.induct)
  case (1 k needle)
  then show ?case by (auto split: if_splits)
next
  case (2 k c cs needle)
  show ?case
  proof (cases "prefix needle (c # cs)")
    case True
    with 2 show ?thesis by auto
  next
    case False
    with 2(2) have eq: "indexOf_from (Suc k) cs needle = int (k + i)" by simp
    have "i \<noteq> 0"
      using eq indexOf_from_range[of "Suc k" cs needle] by auto
    then obtain i' where i: "i = Suc i'" by (cases i) auto
    with eq have "indexOf_from (Suc k) cs needle = int (Suc k + i')" by simp
    from 2(1)[OF False this] have ih: "i' \<le> length cs" "prefix needle (drop i' cs)"
      "\<forall>j<i'. \<not> prefix needle (drop j cs)" by auto
    show ?thesis
    proof (intro conjI allI impI)
      show "i \<le> length (c # cs)" using ih i by simp
      show "prefix needle (drop i (c # cs))" using ih i by simp
      fix j assume "j < i"
      then show "\<not> prefix needle (drop j (c # cs))"
        using ih(3) i False by (cases j) auto
    qed
  qed
qed

lemma lastIndexOf_scan_absent: "c \<notin> set s \<Longrightarrow> lastIndexOf_scan k best s [c] = best"
  by (induction s arbitrary: k best) auto

lemma lastIndexOf_scan_last:
  "c \<notin> set base \<Longrightarrow> lastIndexOf_scan k best (p @ c # base) [c] = int (k + length p)"
  by (induction p arbitrary: k best) (auto simp: lastIndexOf_scan_absent)

lemma getDirPath_no_slash:
  assumes "path_sep ext = ''/''" "CHR ''/'' \<notin> set fp"
  shows "getDirPath ext fp = []"
  using assms
  by (simp add: getDirPath_def lastIndexOf_def lastIndexOf_scan_absent substring_def
      clamp_index_def Let_def)

lemma getDirPath_slash:
  assumes "path_sep ext = ''/''" "CHR ''/'' \<in> set fp"
  shows "\<exists>base. fp = getDirPath ext fp @ ''/'' @ base \<and> CHR ''/'' \<notin> set base"
proof -
  from split_list_last[OF assms(2)] obtain p base where
    fp: "fp = p @ CHR ''/'' # base" and nb: "CHR ''/'' \<notin> set base" by blast
  have "lastIndexOf fp ''/'' = int (length p)"
    unfolding lastIndexOf_def fp using lastIndexOf_scan_last[OF nb, of 0 "- 1" p] by simp
  then have "getDirPath ext fp = p"
    using assms(1) by (simp add: getDirPath_def substring_def clamp_index_def Let_def fp)
  with fp nb show ?thesis by auto
qed

section \<open>Path normalisation\<close>

text \<open>
  Claim C6, as the code has it. A raw import that starts with \<open>./\<close> or \<open>../\<close> is joined to
  the directory of the importing file and normalised by the \<open>path\<close> module, and every
  backslash of the result becomes a forward slash. Any other raw import has its
  backslashes replaced too: it comes back unchanged exactly when it holds no backslash.
  In both cases the result holds no backslash. (\<open>getDirPath_slash\<close> and
  \<open>getDirPath_no_slash\<close> say what the directory is when the separator is \<open>/\<close>.)
\<close>

theorem getNormalizedDependencyPath_cases:
  "(is_relative_import dep \<longrightarrow>
      getNormalizedDependencyPath ext dep fp =
        replace_backslashes (path_normalize ext (path_join ext (getDirPath ext fp) dep))) \<and>
   (\<not> is_relative_import dep \<longrightarrow>
      getNormalizedDependencyPath ext dep fp = replace_backslashes dep \<and>
      (getNormalizedDependencyPath ext dep fp = dep \<longleftrightarrow> backslash \<notin> set dep)) \<and>
   backslash \<notin> set (getNormalizedDependencyPath ext dep fp)"
proof (intro conjI impI)
  show "backslash \<notin> set (getNormalizedDependencyPath ext dep fp)"
    by (simp add: getNormalizedDependencyPath_def Let_def replace_backslashes_free)
next
  assume "is_relative_import dep"
  then show "getNormalizedDependencyPath ext dep fp =
        replace_backslashes (path_normalize ext (path_join ext (getDirPath ext fp) dep))"
    by (simp add: getNormalizedDependencyPath_def)
next
  assume n: "\<not> is_relative_import dep"
  then show r: "getNormalizedDependencyPath ext dep fp = replace_backslashes dep"
    by (simp add: getNormalizedDependencyPath_def)
  show "getNormalizedDependencyPath ext dep fp = dep \<longleftrightarrow> backslash \<notin> set dep"
    unfolding r using replace_backslashes_id replace_backslashes_changes by blast
qed

theorem getNormalizedDependencyPath_cases_witness:
  "is_relative_import ''../lib/X.sol'' \<and>
   getNormalizedDependencyPath (posix_ext []) ''../lib/X.sol'' ''/proj/contracts/A.sol'' =
     ''/proj/lib/X.sol'' \<and>
   \<not> is_relative_import ''lib/X.sol'' \<and>
   getNormalizedDependencyPath (posix_ext []) ''lib/X.sol'' ''/proj/contracts/A.sol'' = ''lib/X.sol''"
proof -
  have r: "is_relative_import ''../lib/X.sol''"
    by (simp add: is_relative_import_def startsWith_def)
  have d: "getDirPath (posix_ext []) ''/proj/contracts/A.sol'' = ''/proj/contracts''"
    by (simp add: getDirPath_def posix_ext_def lastIndexOf_def substring_def clamp_index_def)
  have j: "posix_normalize (posix_join ''/proj/contracts'' ''../lib/X.sol'') = ''/proj/lib/X.sol''"
    by (simp add: posix_join_def posix_normalize_def posix_isAbsolute_def normalizeSegments_def
        normalize_step_def)
  have b: "replace_backslashes ''/proj/lib/X.sol'' = ''/proj/lib/X.sol''"
    by (simp add: replace_backslashes_def backslash_def)
  have n: "\<not> is_relative_import ''lib/X.sol''"
    by (simp add: is_relative_import_def startsWith_def)
  have nb: "backslash \<notin> set ''lib/X.sol''"
    by (simp add: backslash_def)
  from getNormalizedDependencyPath_cases[of "''../lib/X.sol''" "posix_ext []" "''/proj/contracts/A.sol''"] r
  have 1: "getNormalizedDependencyPath (posix_ext []) ''../lib/X.sol'' ''/proj/contracts/A.sol'' =
     ''/proj/lib/X.sol''"
    using d j b by (simp add: posix_ext_def)
  from getNormalizedDependencyPath_cases[of "''lib/X.sol''" "posix_ext []" "''/proj/contracts/A.sol''"] n nb
  have 2: "getNormalizedDependencyPath (posix_ext []) ''lib/X.sol'' ''/proj/contracts/A.sol'' = ''lib/X.sol''"
    by blast
  from r 1 n 2 show ?thesis by blast
qed

text \<open>
  Claim C6, as the spec states it, says that a raw import that does not start with \<open>./\<close> or
  \<open>../\<close> comes back unchanged. The import \<open>lib\X.sol\<close> comes back as \<open>lib/X.sol\<close>.
\<close>

theorem bare_import_changed_counterexample:
  "\<not> is_relative_import (''lib'' @ [CHR 0x5C] @ ''X.sol'') \<and>
   getNormalizedDependencyPath (posix_ext []) (''lib'' @ [CHR 0x5C] @ ''X.sol'') ''/proj/contracts/A.sol''
     = ''lib/X.sol'' \<and>
   ''lib/X.sol'' \<noteq> ''lib'' @ [CHR 0x5C] @ ''X.sol''"
  by (simp add: is_relative_import_def startsWith_def getNormalizedDependencyPath_def
      replace_backslashes_def backslash_def)

section \<open>Global names\<close>

text \<open>
  What \<open>fileNameToGlobalName\<close> computes. It takes the path relative to the project root,
  as \<open>path.relative\<close> gives it for the resolved file name, and looks for the text
  \<open>node_modules/\<close> in it (\<open>indexOf\<close>). When the text occurs, the global name is what
  follows its first occurrence, so the path is a prefix, then \<open>node_modules/\<close>, then the
  global name; otherwise the global name is the whole relative path.
\<close>

lemma fileNameToGlobalName_cut:
  "(sublist ''node_modules/'' (path_relative ext cwd truffleRoot (path_resolve ext cwd fileName)) \<longrightarrow>
      (\<exists>p. path_relative ext cwd truffleRoot (path_resolve ext cwd fileName) =
             p @ ''node_modules/'' @ fileNameToGlobalName ext cwd fileName truffleRoot \<and>
           (\<forall>j<length p. \<not> prefix ''node_modules/''
              (drop j (path_relative ext cwd truffleRoot (path_resolve ext cwd fileName)))))) \<and>
   (\<not> sublist ''node_modules/'' (path_relative ext cwd truffleRoot (path_resolve ext cwd fileName)) \<longrightarrow>
      fileNameToGlobalName ext cwd fileName truffleRoot =
        path_relative ext cwd truffleRoot (path_resolve ext cwd fileName))"
proof -
  define rel where "rel = path_relative ext cwd truffleRoot (path_resolve ext cwd fileName)"
  define nm where "nm = ''node_modules/''"
  have name: "fileNameToGlobalName ext cwd fileName truffleRoot =
      (if indexOf rel nm \<noteq> - 1 then substr rel (indexOf rel nm + int (length nm)) else rel)"
    by (simp add: fileNameToGlobalName_def getFilePathsFromTruffleRoot_def rel_def nm_def Let_def)
  have none: "indexOf rel nm = - 1 \<longleftrightarrow> \<not> sublist nm rel"
    by (simp add: indexOf_def indexOf_from_none)
  have found: "\<exists>p. rel = p @ nm @ fileNameToGlobalName ext cwd fileName truffleRoot \<and>
           (\<forall>j<length p. \<not> prefix nm (drop j rel))" if s: "sublist nm rel"
  proof -
    from s none have ne: "indexOf rel nm \<noteq> - 1" by simp
    with indexOf_from_range[of 0 rel nm] have "0 \<le> indexOf rel nm" by (simp add: indexOf_def)
    then obtain i where i: "indexOf rel nm = int i" using nonneg_int_cases by blast
    then have "indexOf_from 0 rel nm = int (0 + i)" by (simp add: indexOf_def)
    from indexOf_from_found[OF this] have f: "i \<le> length rel" "prefix nm (drop i rel)"
      "\<forall>j<i. \<not> prefix nm (drop j rel)" by auto
    from f(2) obtain rest where rest: "drop i rel = nm @ rest" by (auto simp: prefix_def)
    have n: "fileNameToGlobalName ext cwd fileName truffleRoot = drop (i + length nm) rel"
      using name ne i by (simp add: substr_def nat_add_distrib)
    have "drop (i + length nm) rel = drop (length nm) (drop i rel)" by (simp add: add.commute)
    also have "\<dots> = rest" using rest by simp
    finally have r: "fileNameToGlobalName ext cwd fileName truffleRoot = rest" using n by simp
    have "rel = take i rel @ drop i rel" by simp
    then have "rel = take i rel @ nm @ fileNameToGlobalName ext cwd fileName truffleRoot"
      using rest r by simp
    moreover have "length (take i rel) = i" using f(1) by simp
    ultimately show ?thesis using f(3) by metis
  qed
  show ?thesis
    using found name none unfolding rel_def[symmetric] nm_def[symmetric] by auto
qed

lemma fileNameToGlobalName_cut_example:
  "sublist ''node_modules/'' (posix_relative ''/proj'' ''/proj'' (posix_resolve ''/proj'' ''node_modules/lib/X.sol'')) \<and>
   fileNameToGlobalName (posix_ext []) ''/proj'' ''node_modules/lib/X.sol'' ''/proj'' = ''lib/X.sol'' \<and>
   \<not> sublist ''node_modules/'' (posix_relative ''/proj'' ''/proj'' (posix_resolve ''/proj'' ''contracts/A.sol'')) \<and>
   fileNameToGlobalName (posix_ext []) ''/proj'' ''contracts/A.sol'' ''/proj'' = ''contracts/A.sol''"
proof -
  have r1: "posix_relative ''/proj'' ''/proj'' (posix_resolve ''/proj'' ''node_modules/lib/X.sol'')
      = ''node_modules/lib/X.sol''"
    by (simp add: posix_relative_def posix_resolve_def posix_isAbsolute_def normalizeSegments_def
        normalize_step_def)
  have r2: "posix_relative ''/proj'' ''/proj'' (posix_resolve ''/proj'' ''contracts/A.sol'')
      = ''contracts/A.sol''"
    by (simp add: posix_relative_def posix_resolve_def posix_isAbsolute_def normalizeSegments_def
        normalize_step_def)
  have s1: "sublist ''node_modules/'' ''node_modules/lib/X.sol''"
    by (simp add: sublist_Cons_right)
  have s2: "\<not> sublist ''node_modules/'' ''contracts/A.sol''"
    by (simp add: sublist_Cons_right)
  from fileNameToGlobalName_cut[of "posix_ext []" "''/proj''" "''/proj''" "''node_modules/lib/X.sol''"]
  obtain p where p: "''node_modules/lib/X.sol'' = p @ ''node_modules/'' @
        fileNameToGlobalName (posix_ext []) ''/proj'' ''node_modules/lib/X.sol'' ''/proj''"
      and first: "\<forall>j<length p. \<not> prefix ''node_modules/'' (drop j ''node_modules/lib/X.sol'')"
    using r1 s1 by (auto simp: posix_ext_def)
  have "p = []"
  proof (rule ccontr)
    assume "p \<noteq> []"
    then have "0 < length p" by simp
    with first have "\<not> prefix ''node_modules/'' (drop 0 ''node_modules/lib/X.sol'')" by blast
    then show False by simp
  qed
  with p have 1: "fileNameToGlobalName (posix_ext []) ''/proj'' ''node_modules/lib/X.sol'' ''/proj'' = ''lib/X.sol''"
    by simp
  from fileNameToGlobalName_cut[of "posix_ext []" "''/proj''" "''/proj''" "''contracts/A.sol''"]
  have 2: "fileNameToGlobalName (posix_ext []) ''/proj'' ''contracts/A.sol'' ''/proj'' = ''contracts/A.sol''"
    using r2 s2 by (simp add: posix_ext_def)
  show ?thesis using r1 r2 s1 s2 1 2 by simp
qed

text \<open>
  Claim C9 speaks of the directory segment \<open>node_modules\<close>: what precedes it, and the
  segment, are stripped, and a path without that segment is kept whole. The code tests
  for the text \<open>node_modules/\<close>, which also ends the name of a directory such as
  \<open>my_node_modules\<close>. The file \<open>my_node_modules/X.sol\<close> of the project has the relative
  path \<open>my_node_modules/X.sol\<close>, whose segments are \<open>my_node_modules\<close> and \<open>X.sol\<close>; its
  global name is \<open>X.sol\<close>, not the relative path, and \<open>flatten\<close> fails on it, because
  \<open>cleanFile\<close> asks the resolver for \<open>X.sol\<close>.
\<close>

theorem global_name_cut_inside_segment:
  "resolve (posix_ext fs_bad_name) ''/proj'' ''my_node_modules/X.sol'' =
     Inr \<lparr>fileContents = ''contract X {}'', filePath = ''/proj/my_node_modules/X.sol''\<rparr> \<and>
   path_relative (posix_ext fs_bad_name) ''/proj'' ''/proj''
     (path_resolve (posix_ext fs_bad_name) ''/proj'' ''my_node_modules/X.sol'') =
     ''my_node_modules/X.sol'' \<and>
   split_on CHR ''/'' ''my_node_modules/X.sol'' = [''my_node_modules'', ''X.sol''] \<and>
   ''node_modules'' \<notin> set (split_on CHR ''/'' ''my_node_modules/X.sol'') \<and>
   fileNameToGlobalName (posix_ext fs_bad_name) ''/proj'' ''my_node_modules/X.sol'' ''/proj'' =
     ''X.sol'' \<and>
   getSortedFilePaths 5 (posix_ext fs_bad_name) ''/proj'' [''my_node_modules/X.sol''] ''/proj'' =
     Some (Inr [''X.sol'']) \<and>
   flatten 5 (posix_ext fs_bad_name) ''/proj'' [''my_node_modules/X.sol''] (Some ''/proj'') =
     Some \<lparr>outcome = Inl (Error ''None of the sub-resolvers resolved X.sol''),
           cwd_after = ''/proj'', emitted = []\<rparr>"
  by (intro conjI) code_simp+

section \<open>The traversal\<close>

lemma loop_post_nil: "loop_post ext cwd st fp [] st"
  unfolding loop_post_def by (rule exI[of _ "[]"], rule exI[of _ "[]"]) simp

lemma loop_post_skip:
  assumes "loop_post ext cwd (graph_add (fst st) d0 fp, snd st) fp rest st'"
  shows "loop_post ext cwd st fp (d0 # rest) st'"
proof -
  from assms obtain es more where
    es: "fst st' = (fst st @ [(d0, fp)]) @ es" and more: "snd st' = snd st @ more"
    and dm: "distinct more" "set more \<inter> set (snd st) = {}"
    and cnt: "\<forall>d v. count_list es (d, v) =
                 (if v = fp then count_list rest d else 0) +
                 count_list more v * count_list (imports_of ext cwd v) d"
    unfolding loop_post_def graph_add_def by auto
  show ?thesis
    unfolding loop_post_def
  proof (intro exI[of _ "(d0, fp) # es"] exI[of _ more] conjI allI)
    show "fst st' = fst st @ (d0, fp) # es" using es by simp
    show "snd st' = snd st @ more" by (rule more)
    show "distinct more" by (rule dm)
    show "set more \<inter> set (snd st) = {}" by (rule dm)
    fix d v
    show "count_list ((d0, fp) # es) (d, v) =
                 (if v = fp then count_list (d0 # rest) d else 0) +
                 count_list more v * count_list (imports_of ext cwd v) d"
      using cnt by auto
  qed
qed

lemma loop_post_recurse:
  assumes nv: "d0 \<notin> set (snd st)"
    and v: "visit_post ext cwd (graph_add (fst st) d0 fp, snd st) d0 st1"
    and l: "loop_post ext cwd st1 fp rest st'"
    and fp: "fp \<in> set (snd st)"
  shows "loop_post ext cwd st fp (d0 # rest) st'"
proof -
  from v obtain es1 more1 where
    es1: "fst st1 = (fst st @ [(d0, fp)]) @ es1" and more1: "snd st1 = snd st @ d0 # more1"
    and dm1: "distinct more1" "set more1 \<inter> insert d0 (set (snd st)) = {}"
    and cnt1: "\<forall>d v. count_list es1 (d, v) =
                 count_list (d0 # more1) v * count_list (imports_of ext cwd v) d"
    unfolding visit_post_def graph_add_def by auto
  from l obtain es2 more2 where
    es2: "fst st' = fst st1 @ es2" and more2: "snd st' = snd st1 @ more2"
    and dm2: "distinct more2" "set more2 \<inter> set (snd st1) = {}"
    and cnt2: "\<forall>d v. count_list es2 (d, v) =
                 (if v = fp then count_list rest d else 0) +
                 count_list more2 v * count_list (imports_of ext cwd v) d"
    unfolding loop_post_def by auto
  show ?thesis
    unfolding loop_post_def
  proof (intro exI[of _ "(d0, fp) # es1 @ es2"] exI[of _ "d0 # more1 @ more2"] conjI allI)
    show "fst st' = fst st @ (d0, fp) # es1 @ es2" using es1 es2 by simp
    show "snd st' = snd st @ d0 # more1 @ more2" using more1 more2 by simp
    show "distinct (d0 # more1 @ more2)" using dm1 dm2 more1 by auto
    show "set (d0 # more1 @ more2) \<inter> set (snd st) = {}" using nv dm1 dm2 more1 by auto
    fix d v
    show "count_list ((d0, fp) # es1 @ es2) (d, v) =
                 (if v = fp then count_list (d0 # rest) d else 0) +
                 count_list (d0 # more1 @ more2) v * count_list (imports_of ext cwd v) d"
      using cnt1 cnt2 by (auto simp: algebra_simps)
  qed
qed

lemma visit_post_intro:
  assumes i: "imports_of ext cwd fp = deps"
    and l: "loop_post ext cwd (fst st, snd st @ [fp]) fp deps st'"
  shows "visit_post ext cwd st fp st'"
proof -
  from l obtain es more where
    es: "fst st' = fst st @ es" and more: "snd st' = (snd st @ [fp]) @ more"
    and dm: "distinct more" "set more \<inter> set (snd st @ [fp]) = {}"
    and cnt: "\<forall>d v. count_list es (d, v) =
                 (if v = fp then count_list deps d else 0) +
                 count_list more v * count_list (imports_of ext cwd v) d"
    unfolding loop_post_def by auto
  from dm have nf: "count_list more fp = 0" by (auto simp: count_list_0_iff)
  show ?thesis
    unfolding visit_post_def
  proof (intro exI[of _ es] exI[of _ more] conjI allI)
    show "fst st' = fst st @ es" by (rule es)
    show "snd st' = snd st @ fp # more" using more by simp
    show "distinct more" by (rule dm)
    show "set more \<inter> insert fp (set (snd st)) = {}" using dm by auto
    fix d v
    show "count_list es (d, v) = count_list (fp # more) v * count_list (imports_of ext cwd v) d"
      using cnt nf i by auto
  qed
qed

lemma dfs_posts:
  "dependenciesDfs n ext cwd st fp = Some (Inr st') \<Longrightarrow> visit_post ext cwd st fp st'"
  "dfs_loop n ext cwd st fp deps = Some (Inr st') \<Longrightarrow> fp \<in> set (snd st) \<Longrightarrow>
     loop_post ext cwd st fp deps st'"
proof (induction n ext cwd st fp and n ext cwd st fp deps arbitrary: st' and st'
    rule: dependenciesDfs_dfs_loop.induct)
  case (1 ext cwd st fp)
  then show ?case by simp
next
  case (2 n ext cwd st fp)
  from "2.prems" obtain r deps where
    r: "resolve ext cwd fp = Inr r"
    and d: "getDependencies ext (filePath r) (fileContents r) = Inr deps"
    and l: "dfs_loop n ext cwd (fst st, snd st @ [fp]) fp deps = Some (Inr st')"
    by (auto simp: Let_def split: sum.splits)
  have "loop_post ext cwd (fst st, snd st @ [fp]) fp deps st'"
    using "2.IH"[OF refl r d l] by simp
  moreover have "imports_of ext cwd fp = deps" using r d by (simp add: imports_of_def)
  ultimately show ?case by (rule visit_post_intro[rotated])
next
  case (3 n ext cwd st fp)
  then show ?case by (simp add: loop_post_nil)
next
  case (4 n ext cwd st fp d0 rest)
  show ?case
  proof (cases "d0 \<in> set (snd st)")
    case True
    with "4.prems" have l: "dfs_loop n ext cwd (graph_add (fst st) d0 fp, snd st) fp rest = Some (Inr st')"
      by (simp add: Let_def)
    have "loop_post ext cwd (graph_add (fst st) d0 fp, snd st) fp rest st'"
      using "4.IH"(1)[OF refl True l] "4.prems"(2) by simp
    then show ?thesis by (rule loop_post_skip)
  next
    case False
    with "4.prems" obtain st1 where
      v: "dependenciesDfs n ext cwd (graph_add (fst st) d0 fp, snd st) d0 = Some (Inr st1)"
      and l: "dfs_loop n ext cwd st1 fp rest = Some (Inr st')"
      by (auto simp: Let_def split: option.splits sum.splits)
    have vp: "visit_post ext cwd (graph_add (fst st) d0 fp, snd st) d0 st1"
      using "4.IH"(2)[OF refl False v] .
    then have "fp \<in> set (snd st1)" using "4.prems"(2) unfolding visit_post_def by auto
    then have "loop_post ext cwd st1 fp rest st'"
      using "4.IH"(3)[OF refl False v _ l] by simp
    with False vp show ?thesis using "4.prems"(2) by (rule loop_post_recurse)
  qed
qed

lemma count_list_distinct: "distinct xs \<Longrightarrow> x \<in> set xs \<Longrightarrow> count_list xs x = 1"
  by (induction xs) (auto simp: count_list_0_iff)

lemma dfs_entries_blocks:
  "dfs_entries n ext cwd st eps = Some (Inr st') \<Longrightarrow>
     \<exists>es mores. length mores = length eps \<and> fst st' = fst st @ es \<and>
        snd st' = snd st @ visits_of (zip eps mores) \<and>
        fresh_blocks (snd st) (zip eps mores) \<and>
        (\<forall>d v. count_list es (d, v) =
                 count_list (visits_of (zip eps mores)) v * count_list (imports_of ext cwd v) d)"
proof (induction eps arbitrary: st)
  case Nil
  then show ?case by (intro exI[of _ "[]"]) (simp add: visits_of_def)
next
  case (Cons e rest)
  from Cons.prems obtain st1 where
    v: "dependenciesDfs n ext cwd st e = Some (Inr st1)"
    and r: "dfs_entries n ext cwd st1 rest = Some (Inr st')"
    by (auto split: option.splits sum.splits)
  from dfs_posts(1)[OF v] obtain es1 more1 where
    es1: "fst st1 = fst st @ es1" and more1: "snd st1 = snd st @ e # more1"
    and dm1: "distinct more1" "set more1 \<inter> insert e (set (snd st)) = {}"
    and cnt1: "\<forall>d v. count_list es1 (d, v) =
                 count_list (e # more1) v * count_list (imports_of ext cwd v) d"
    unfolding visit_post_def by auto
  from Cons.IH[OF r] obtain es2 mores2 where
    len: "length mores2 = length rest"
    and es2: "fst st' = fst st1 @ es2"
    and vis2: "snd st' = snd st1 @ visits_of (zip rest mores2)"
    and fresh2: "fresh_blocks (snd st1) (zip rest mores2)"
    and cnt2: "\<forall>d v. count_list es2 (d, v) =
                 count_list (visits_of (zip rest mores2)) v * count_list (imports_of ext cwd v) d"
    by auto
  have vo: "visits_of (zip (e # rest) (more1 # mores2)) = e # more1 @ visits_of (zip rest mores2)"
    by (simp add: visits_of_def)
  show ?case
  proof (intro exI[of _ "es1 @ es2"] exI[of _ "more1 # mores2"] conjI allI)
    show "length (more1 # mores2) = length (e # rest)" using len by simp
    show "fst st' = fst st @ es1 @ es2" using es1 es2 by simp
    show "snd st' = snd st @ visits_of (zip (e # rest) (more1 # mores2))"
      unfolding vo using more1 vis2 by simp
    show "fresh_blocks (snd st) (zip (e # rest) (more1 # mores2))"
      using dm1 fresh2 more1 by simp
    fix d v
    show "count_list (es1 @ es2) (d, v) =
        count_list (visits_of (zip (e # rest) (more1 # mores2))) v *
        count_list (imports_of ext cwd v) d"
      unfolding vo using cnt1 cnt2 by (auto simp: algebra_simps)
  qed
qed

lemma fresh_blocks_distinct:
  "fresh_blocks seen blocks \<Longrightarrow>
     distinct (concat (map snd blocks)) \<and> set (concat (map snd blocks)) \<inter> set seen = {}"
proof (induction blocks arbitrary: seen)
  case Nil
  then show ?case by simp
next
  case (Cons block rest)
  from Cons.prems have d: "distinct (snd block)"
    and i: "set (snd block) \<inter> insert (fst block) (set seen) = {}"
    and f: "fresh_blocks (seen @ fst block # snd block) rest" by simp_all
  from Cons.IH[OF f] have d2: "distinct (concat (map snd rest))"
    and i2: "set (concat (map snd rest)) \<inter> set (seen @ fst block # snd block) = {}" by simp_all
  from d d2 i i2 show ?case by auto
qed

text \<open>
  Claim C7, as the code has it. \<open>visitedFiles\<close> lists the calls of \<open>dependenciesDfs\<close>, each
  of which resolves and parses what its identifier names. A traversal started from a file
  enters below it only identifiers that were not visited before, each once. Over a whole
  run, \<open>visitedFiles\<close> is, for every entry point in turn, the entry point and then the
  identifiers entered through an import below it; every identifier entered through an
  import was absent from \<open>visitedFiles\<close> when it was entered, so that no identifier is
  entered through an import twice. The edge \<open>(d, v)\<close> is added for every import of \<open>v\<close>
  that normalises to \<open>d\<close>, at every traversal of \<open>v\<close>, whether \<open>d\<close> was visited or not.
\<close>

theorem dfs_traversal_counts:
  "(dependenciesDfs n ext cwd (g0, visited0) fp = Some (Inr (g1, visited1)) \<longrightarrow>
      (\<exists>more. visited1 = visited0 @ fp # more \<and> distinct more \<and>
              set more \<inter> insert fp (set visited0) = {})) \<and>
   (dfs_entries n ext cwd ([], []) entryPoints = Some (Inr (g, visitedFiles)) \<longrightarrow>
      (\<exists>mores. length mores = length entryPoints \<and>
          visitedFiles = visits_of (zip entryPoints mores) \<and>
          fresh_blocks [] (zip entryPoints mores) \<and>
          distinct (concat mores)) \<and>
      (\<forall>d v. count_list g (d, v) =
               count_list visitedFiles v * count_list (imports_of ext cwd v) d))"
proof (intro conjI impI)
  assume "dependenciesDfs n ext cwd (g0, visited0) fp = Some (Inr (g1, visited1))"
  from dfs_posts(1)[OF this]
  show "\<exists>more. visited1 = visited0 @ fp # more \<and> distinct more \<and>
              set more \<inter> insert fp (set visited0) = {}"
    unfolding visit_post_def by auto
next
  assume a: "dfs_entries n ext cwd ([], []) entryPoints = Some (Inr (g, visitedFiles))"
  from dfs_entries_blocks[OF a] obtain mores where
    len: "length mores = length entryPoints"
    and vis: "visitedFiles = visits_of (zip entryPoints mores)"
    and fresh: "fresh_blocks [] (zip entryPoints mores)"
    and cnt: "\<forall>d v. count_list g (d, v) =
               count_list visitedFiles v * count_list (imports_of ext cwd v) d"
    by auto
  have "map snd (zip entryPoints mores) = mores" using len by simp
  with fresh_blocks_distinct[OF fresh] have "distinct (concat mores)" by simp
  with len vis fresh
  show "\<exists>mores. length mores = length entryPoints \<and>
          visitedFiles = visits_of (zip entryPoints mores) \<and>
          fresh_blocks [] (zip entryPoints mores) \<and>
          distinct (concat mores)" by blast
  show "\<forall>d v. count_list g (d, v) =
               count_list visitedFiles v * count_list (imports_of ext cwd v) d"
    by (rule cnt)
qed

theorem dfs_traversal_counts_witness:
  "dfs_entries 5 (posix_ext fs_diamond) ''/proj'' ([], []) [''contracts/A.sol'', ''contracts/E.sol''] =
     Some (Inr ([(''/proj/contracts/B.sol'', ''contracts/A.sol''),
                 (''/proj/contracts/D.sol'', ''/proj/contracts/B.sol''),
                 (''/proj/contracts/C.sol'', ''contracts/A.sol''),
                 (''/proj/contracts/D.sol'', ''/proj/contracts/C.sol''),
                 (''/proj/contracts/D.sol'', ''contracts/E.sol'')],
                [''contracts/A.sol'', ''/proj/contracts/B.sol'', ''/proj/contracts/D.sol'',
                 ''/proj/contracts/C.sol'', ''contracts/E.sol''])) \<and>
   (\<exists>mores. length mores = length [''contracts/A.sol'', ''contracts/E.sol''] \<and>
      [''contracts/A.sol'', ''/proj/contracts/B.sol'', ''/proj/contracts/D.sol'',
       ''/proj/contracts/C.sol'', ''contracts/E.sol''] =
        visits_of (zip [''contracts/A.sol'', ''contracts/E.sol''] mores) \<and>
      fresh_blocks [] (zip [''contracts/A.sol'', ''contracts/E.sol''] mores) \<and>
      distinct (concat mores)) \<and>
   imports_of (posix_ext fs_diamond) ''/proj'' ''/proj/contracts/C.sol'' = [''/proj/contracts/D.sol''] \<and>
   precedes [''contracts/A.sol'', ''/proj/contracts/B.sol'', ''/proj/contracts/D.sol'',
             ''/proj/contracts/C.sol'', ''contracts/E.sol'']
     ''/proj/contracts/D.sol'' ''/proj/contracts/C.sol'' \<and>
   count_list [''contracts/A.sol'', ''/proj/contracts/B.sol'', ''/proj/contracts/D.sol'',
               ''/proj/contracts/C.sol'', ''contracts/E.sol''] ''/proj/contracts/D.sol'' = 1 \<and>
   count_list [(''/proj/contracts/B.sol'', ''contracts/A.sol''),
               (''/proj/contracts/D.sol'', ''/proj/contracts/B.sol''),
               (''/proj/contracts/C.sol'', ''contracts/A.sol''),
               (''/proj/contracts/D.sol'', ''/proj/contracts/C.sol''),
               (''/proj/contracts/D.sol'', ''contracts/E.sol'')]
     (''/proj/contracts/D.sol'', ''/proj/contracts/C.sol'') =
     count_list [''contracts/A.sol'', ''/proj/contracts/B.sol'', ''/proj/contracts/D.sol'',
                 ''/proj/contracts/C.sol'', ''contracts/E.sol''] ''/proj/contracts/C.sol'' *
     count_list (imports_of (posix_ext fs_diamond) ''/proj'' ''/proj/contracts/C.sol'')
       ''/proj/contracts/D.sol'' \<and>
   count_list [(''/proj/contracts/B.sol'', ''contracts/A.sol''),
               (''/proj/contracts/D.sol'', ''/proj/contracts/B.sol''),
               (''/proj/contracts/C.sol'', ''contracts/A.sol''),
               (''/proj/contracts/D.sol'', ''/proj/contracts/C.sol''),
               (''/proj/contracts/D.sol'', ''contracts/E.sol'')]
     (''/proj/contracts/D.sol'', ''/proj/contracts/C.sol'') = 1"
proof -
  let ?ext = "posix_ext fs_diamond"
  let ?g = "[(''/proj/contracts/B.sol'', ''contracts/A.sol''),
             (''/proj/contracts/D.sol'', ''/proj/contracts/B.sol''),
             (''/proj/contracts/C.sol'', ''contracts/A.sol''),
             (''/proj/contracts/D.sol'', ''/proj/contracts/C.sol''),
             (''/proj/contracts/D.sol'', ''contracts/E.sol'')]"
  let ?vis = "[''contracts/A.sol'', ''/proj/contracts/B.sol'', ''/proj/contracts/D.sol'',
               ''/proj/contracts/C.sol'', ''contracts/E.sol'']"
  have run: "dfs_entries 5 ?ext ''/proj'' ([], []) [''contracts/A.sol'', ''contracts/E.sol''] =
      Some (Inr (?g, ?vis))"
    by code_simp
  have imp: "imports_of ?ext ''/proj'' ''/proj/contracts/C.sol'' = [''/proj/contracts/D.sol'']"
    by code_simp
  note t = dfs_traversal_counts[of 5 ?ext "''/proj''" "[]" "[]" "''contracts/A.sol''" "[]" "[]"
      "[''contracts/A.sol'', ''contracts/E.sol'']" ?g ?vis]
  from t run have blocks: "\<exists>mores. length mores = length [''contracts/A.sol'', ''contracts/E.sol''] \<and>
      ?vis = visits_of (zip [''contracts/A.sol'', ''contracts/E.sol''] mores) \<and>
      fresh_blocks [] (zip [''contracts/A.sol'', ''contracts/E.sol''] mores) \<and>
      distinct (concat mores)"
    by blast
  from t run have edge: "count_list ?g (''/proj/contracts/D.sol'', ''/proj/contracts/C.sol'') =
      count_list ?vis ''/proj/contracts/C.sol'' *
      count_list (imports_of ?ext ''/proj'' ''/proj/contracts/C.sol'') ''/proj/contracts/D.sol''"
    by blast
  have before: "precedes ?vis ''/proj/contracts/D.sol'' ''/proj/contracts/C.sol''"
    by (simp add: precedes_def index_in_def)
  have once: "count_list ?vis ''/proj/contracts/D.sol'' = 1" by simp
  have one: "count_list ?g (''/proj/contracts/D.sol'', ''/proj/contracts/C.sol'') = 1" by simp
  from run blocks imp before once edge one show ?thesis by blast
qed

text \<open>
  Claim C7, as the spec states it, says that every file is resolved and parsed at most
  once across all entry points. \<open>visitedFiles\<close> holds identifiers, the import strings as
  \<open>getNormalizedDependencyPath\<close> leaves them, and one file can be imported under several.
  In \<open>fs_alias\<close> the only entry point \<open>A.sol\<close> imports \<open>./B.sol\<close>, \<open>contracts/B.sol\<close> and
  \<open>contracts/./B.sol\<close>: three identifiers, which the resolver leads to the same file, and
  the file is resolved and parsed three times.
\<close>

theorem aliased_file_traversed_again_counterexample:
  "dfs_entries 5 (posix_ext fs_alias) ''/proj'' ([], []) [''contracts/A.sol''] =
     Some (Inr ([(''/proj/contracts/B.sol'', ''contracts/A.sol''),
                 (''contracts/B.sol'', ''contracts/A.sol''),
                 (''contracts/./B.sol'', ''contracts/A.sol'')],
                [''contracts/A.sol'', ''/proj/contracts/B.sol'', ''contracts/B.sol'',
                 ''contracts/./B.sol''])) \<and>
   map (resolve (posix_ext fs_alias) ''/proj'')
     [''contracts/A.sol'', ''/proj/contracts/B.sol'', ''contracts/B.sol'', ''contracts/./B.sol''] =
     [Inr \<lparr>fileContents =
             text_lines [import_line ''./B.sol'', import_line ''contracts/B.sol'',
                         import_line ''contracts/./B.sol'', ''contract A {}''],
           filePath = ''/proj/contracts/A.sol''\<rparr>,
      Inr \<lparr>fileContents = ''contract B {}'', filePath = ''/proj/contracts/B.sol''\<rparr>,
      Inr \<lparr>fileContents = ''contract B {}'', filePath = ''/proj/contracts/B.sol''\<rparr>,
      Inr \<lparr>fileContents = ''contract B {}'', filePath = ''/proj/contracts/B.sol''\<rparr>] \<and>
   count_list
     (map (resolver_resolve (posix_ext fs_alias) ''/proj'')
        [''contracts/A.sol'', ''/proj/contracts/B.sol'', ''contracts/B.sol'', ''contracts/./B.sol''])
     (Inr ''/proj/contracts/B.sol'') = 3"
  by (intro conjI) code_simp+

text \<open>
  The loop of \<open>getSortedFilePaths\<close> over the entry points calls \<open>dependenciesDfs\<close> without
  the test of \<open>visitedFiles\<close> that the loop over the imports makes. With the entry points
  \<open>A.sol\<close> and \<open>B.sol\<close>, where \<open>A.sol\<close> imports \<open>contracts/B.sol\<close>, the identifier
  \<open>contracts/B.sol\<close> is entered twice.
\<close>

lemma entry_point_entered_again:
  "dfs_entries 5 (posix_ext fs_two_entries) ''/proj'' ([], [])
      [''contracts/A.sol'', ''contracts/B.sol''] =
     Some (Inr ([(''contracts/B.sol'', ''contracts/A.sol'')],
                [''contracts/A.sol'', ''contracts/B.sol'', ''contracts/B.sol'']))"
  by code_simp

section \<open>The sorted file list\<close>

lemma index_in_Cons: "index_in (y # xs) x = (if y = x then 0 else Suc (index_in xs x))"
  by (simp add: index_in_def)

lemma index_in_less: "index_in xs x < length xs \<longleftrightarrow> x \<in> set xs"
  by (induction xs) (auto simp: index_in_Cons index_in_def)

lemma index_in_append:
  "index_in (xs @ ys) x = (if x \<in> set xs then index_in xs x else length xs + index_in ys x)"
  by (induction xs) (auto simp: index_in_Cons index_in_def)

lemma index_in_map:
  "\<forall>y\<in>set xs. f y = f x \<longrightarrow> y = x \<Longrightarrow> index_in (map f xs) (f x) = index_in xs x"
  by (induction xs) (auto simp: index_in_Cons index_in_def)

lemma index_in_split:
  "x \<in> set xs \<Longrightarrow> xs = take (index_in xs x) xs @ x # drop (Suc (index_in xs x)) xs"
proof (induction xs)
  case Nil
  then show ?case by simp
next
  case (Cons y xs)
  then show ?case by (cases "y = x") (auto simp: index_in_Cons)
qed

lemma precedes_split:
  assumes "precedes xs a b"
  shows "\<exists>ps qs rs. xs = ps @ a # qs @ b # rs"
proof -
  from assms have a: "a \<in> set xs" and b: "b \<in> set xs"
    and lt: "index_in xs a < index_in xs b" by (auto simp: precedes_def)
  define ps where "ps = take (index_in xs a) xs"
  define tl where "tl = drop (Suc (index_in xs a)) xs"
  have xs: "xs = ps @ a # tl" unfolding ps_def tl_def by (rule index_in_split[OF a])
  have lp: "length ps = index_in xs a"
    unfolding ps_def using a index_in_less[of xs a] by simp
  have "a \<notin> set ps"
  proof
    assume "a \<in> set ps"
    then have "index_in (ps @ a # tl) a = index_in ps a" by (simp add: index_in_append)
    moreover have "index_in ps a < length ps" using \<open>a \<in> set ps\<close> by (simp add: index_in_less)
    ultimately show False using lp xs by simp
  qed
  have "b \<notin> set ps"
  proof
    assume "b \<in> set ps"
    then have "index_in (ps @ a # tl) b = index_in ps b" by (simp add: index_in_append)
    moreover have "index_in ps b < length ps" using \<open>b \<in> set ps\<close> by (simp add: index_in_less)
    ultimately show False using lp xs lt by simp
  qed
  moreover have "b \<noteq> a" using lt by auto
  ultimately have "b \<in> set tl" using b xs by (metis Un_iff set_ConsD set_append)
  then obtain qs rs where "tl = qs @ b # rs" by (auto simp: in_set_conv_decomp)
  with xs show ?thesis by blast
qed

lemma foldl_set_add_order:
  assumes "a \<in> set (acc @ xs)" "b \<in> set (acc @ xs)"
  shows "index_in (foldl set_add acc xs) a < index_in (foldl set_add acc xs) b \<longleftrightarrow>
         index_in (acc @ xs) a < index_in (acc @ xs) b"
  using assms
proof (induction xs arbitrary: acc)
  case Nil
  then show ?case by simp
next
  case (Cons x xs)
  show ?case
  proof (cases "x \<in> set acc")
    case False
    then have s: "set_add acc x = acc @ [x]" by (simp add: set_add_def)
    have "index_in (foldl set_add (acc @ [x]) xs) a < index_in (foldl set_add (acc @ [x]) xs) b \<longleftrightarrow>
         index_in ((acc @ [x]) @ xs) a < index_in ((acc @ [x]) @ xs) b"
      using Cons.prems by (intro Cons.IH) auto
    then show ?thesis using s by simp
  next
    case True
    then have s: "set_add acc x = acc" by (simp add: set_add_def)
    have a: "a \<in> set (acc @ xs)" and b: "b \<in> set (acc @ xs)" using Cons.prems True by auto
    have ih: "index_in (foldl set_add acc xs) a < index_in (foldl set_add acc xs) b \<longleftrightarrow>
         index_in (acc @ xs) a < index_in (acc @ xs) b"
      using a b by (rule Cons.IH)
    have la: "a \<in> set acc \<Longrightarrow> index_in acc a < length acc" by (simp add: index_in_less)
    have lb: "b \<in> set acc \<Longrightarrow> index_in acc b < length acc" by (simp add: index_in_less)
    have "index_in (acc @ xs) a < index_in (acc @ xs) b \<longleftrightarrow>
          index_in (acc @ x # xs) a < index_in (acc @ x # xs) b"
      using True la lb by (auto simp: index_in_append index_in_Cons)
    then show ?thesis using ih s by simp
  qed
qed

lemma unique_order:
  "a \<in> set xs \<Longrightarrow> b \<in> set xs \<Longrightarrow>
     index_in (unique xs) a < index_in (unique xs) b \<longleftrightarrow> index_in xs a < index_in xs b"
  using foldl_set_add_order[of a "[]" xs b] by (simp add: unique_def)

lemma foldl_reduce_step:
  "foldl reduce_step (out, vs, es) items =
     (out @ concat (map (\<lambda>i. file_marker (fst i) @ fst (snd i)) items),
      vs @ concat (map (\<lambda>i. fst (snd (snd i))) items),
      es @ concat (map (\<lambda>i. snd (snd (snd i))) items))"
  by (induction items arbitrary: out vs es) (auto simp: reduce_step_def split: prod.splits)

lemma promise_all_Inr:
  assumes "promise_all first rs = Inr xs"
  shows "rs = map Inr xs"
proof -
  from assms have none: "filter (\<lambda>i. isl (rs ! i)) [0..<length rs] = []"
    and xs: "xs = map projr rs"
    by (auto simp: promise_all_def split: list.splits)
  from none have "\<forall>i<length rs. \<not> isl (rs ! i)" by (auto simp: filter_empty_conv)
  then show ?thesis unfolding xs by (intro nth_equalityI) simp_all
qed

lemma promise_all_rejection_order:
  "promise_all hd [Inl ''first'', Inr (0::nat), Inl ''second''] = Inl ''first'' \<and>
   promise_all last [Inl ''first'', Inr (0::nat), Inl ''second''] = Inl ''second''"
  by (intro conjI) code_simp+


lemma printConcatenation_chunks:
  assumes "printConcatenation ext cwd files = Inr chunks"
  shows "(\<forall>x\<in>set files. \<exists>c. cleanFile ext cwd x = Inr c) \<and>
         chunks = emit_chunks
           (concat (map (\<lambda>x. file_marker x @ body_of ext cwd x) files),
            concat (map (versions_of ext cwd) files),
            concat (map (experimentals_of ext cwd) files))"
proof -
  from assms obtain cleaned where
    seq: "promise_all (first_rejection ext) (map (cleanFile ext cwd) files) = Inr cleaned"
    and ch: "chunks = emit_chunks (foldl reduce_step ([], [], []) (zip files cleaned))"
    by (auto simp: printConcatenation_def split: sum.splits)
  from promise_all_Inr[OF seq] have m: "map (cleanFile ext cwd) files = map Inr cleaned" .
  then have len: "length cleaned = length files" by (metis length_map)
  have each: "cleanFile ext cwd (files ! i) = Inr (cleaned ! i)" if "i < length files" for i
    using m that len by (metis nth_map)
  have all: "\<forall>x\<in>set files. \<exists>c. cleanFile ext cwd x = Inr c"
    using each by (metis in_set_conv_nth)
  have cl: "cleaned = map (\<lambda>x. (body_of ext cwd x, versions_of ext cwd x, experimentals_of ext cwd x)) files"
    using len each
    by (intro nth_equalityI) (auto simp: body_of_def versions_of_def experimentals_of_def)
  have z: "zip files cleaned =
      map (\<lambda>x. (x, body_of ext cwd x, versions_of ext cwd x, experimentals_of ext cwd x)) files"
    unfolding cl by (induction files) auto
  show ?thesis
    using all ch unfolding z foldl_reduce_step by (simp add: comp_def)
qed

lemma last_emit_chunks: "last (emit_chunks (out, vs, es)) = out"
  by (simp add: emit_chunks_def)

text \<open>
  Claim C2. When \<open>getSortedFilePaths\<close> answers a list and \<open>printConcatenation\<close> emits it,
  no global name occurs twice in the list, the global name of every entry point occurs
  exactly once, and the last chunk sent to the sink is, for the files of the list in
  order, a line feed, the text \<open>// File: \<close>, the global name, a line feed, and the cleaned
  body that \<open>cleanFile\<close> answers for the name: one marker for each name of the list, in
  the order of the list.
\<close>

theorem file_markers_once:
  assumes "getSortedFilePaths n ext cwd entryPoints truffleRoot = Some (Inr files)"
    and "printConcatenation ext cwd files = Inr chunks"
  shows "distinct files \<and>
         (\<forall>e\<in>set entryPoints. count_list files (fileNameToGlobalName ext cwd e truffleRoot) = 1) \<and>
         last chunks =
           concat (map (\<lambda>name. [CHR 0x0A] @ ''// File: '' @ name @ [CHR 0x0A] @
                                 body_of ext cwd name) files)"
proof -
  from assms(1) obtain topologicalSortedFiles where
    f: "files = unique (map (\<lambda>f. fileNameToGlobalName ext cwd f truffleRoot)
                            (topologicalSortedFiles @ entryPoints))"
    by (auto simp: getSortedFilePaths_def split: option.splits sum.splits)
  have d: "distinct files" unfolding f by (rule distinct_unique)
  have "\<forall>e\<in>set entryPoints. fileNameToGlobalName ext cwd e truffleRoot \<in> set files"
    unfolding f by (auto simp: set_unique)
  with d have c: "\<forall>e\<in>set entryPoints. count_list files (fileNameToGlobalName ext cwd e truffleRoot) = 1"
    by (simp add: count_list_distinct)
  have "last chunks = concat (map (\<lambda>name. file_marker name @ body_of ext cwd name) files)"
    using printConcatenation_chunks[OF assms(2)] by (simp add: last_emit_chunks)
  then have "last chunks =
           concat (map (\<lambda>name. [CHR 0x0A] @ ''// File: '' @ name @ [CHR 0x0A] @
                                 body_of ext cwd name) files)"
    by (simp add: file_marker_def)
  with d c show ?thesis by blast
qed

theorem file_markers_once_witness:
  "getSortedFilePaths 5 (posix_ext fs_chain) ''/proj'' [''contracts/F2.sol''] ''/proj'' =
     Some (Inr [''contracts/F2.sol'']) \<and>
   printConcatenation (posix_ext fs_chain) ''/proj'' [''contracts/F2.sol''] =
     Inr [''pragma solidity ^0.5.0;'', ''\<newline>// File: contracts/F2.sol\<newline>contract F2 {}''] \<and>
   count_list [''contracts/F2.sol'']
     (fileNameToGlobalName (posix_ext fs_chain) ''/proj'' ''contracts/F2.sol'' ''/proj'') = 1 \<and>
   ''\<newline>// File: contracts/F2.sol\<newline>contract F2 {}'' =
     concat (map (\<lambda>name. [CHR 0x0A] @ ''// File: '' @ name @ [CHR 0x0A] @
                           body_of (posix_ext fs_chain) ''/proj'' name) [''contracts/F2.sol'']) \<and>
   getSortedFilePaths 5 (posix_ext fs_diamond) ''/proj'' [''contracts/A.sol'', ''contracts/D.sol''] ''/proj'' =
     Some (Inr [''contracts/D.sol'', ''contracts/C.sol'', ''contracts/B.sol'', ''contracts/A.sol'']) \<and>
   printConcatenation (posix_ext fs_diamond) ''/proj''
       [''contracts/D.sol'', ''contracts/C.sol'', ''contracts/B.sol'', ''contracts/A.sol''] =
     Inr [''\<newline>// File: contracts/D.sol\<newline>contract D {}\<newline>// File: contracts/C.sol\<newline>contract C {}\<newline>// File: contracts/B.sol\<newline>contract B {}\<newline>// File: contracts/A.sol\<newline>contract A {}''] \<and>
   distinct [''contracts/D.sol'', ''contracts/C.sol'', ''contracts/B.sol'', ''contracts/A.sol''] \<and>
   count_list [''contracts/D.sol'', ''contracts/C.sol'', ''contracts/B.sol'', ''contracts/A.sol'']
     (fileNameToGlobalName (posix_ext fs_diamond) ''/proj'' ''contracts/D.sol'' ''/proj'') = 1 \<and>
   ''\<newline>// File: contracts/D.sol\<newline>contract D {}\<newline>// File: contracts/C.sol\<newline>contract C {}\<newline>// File: contracts/B.sol\<newline>contract B {}\<newline>// File: contracts/A.sol\<newline>contract A {}'' =
     concat (map (\<lambda>name. [CHR 0x0A] @ ''// File: '' @ name @ [CHR 0x0A] @
                           body_of (posix_ext fs_diamond) ''/proj'' name)
        [''contracts/D.sol'', ''contracts/C.sol'', ''contracts/B.sol'', ''contracts/A.sol''])"
proof -
  let ?ext = "posix_ext fs_chain" and ?dia = "posix_ext fs_diamond"
  have s1: "getSortedFilePaths 5 ?ext ''/proj'' [''contracts/F2.sol''] ''/proj'' =
     Some (Inr [''contracts/F2.sol''])"
    by code_simp
  have p1: "printConcatenation ?ext ''/proj'' [''contracts/F2.sol''] =
     Inr [''pragma solidity ^0.5.0;'', ''\<newline>// File: contracts/F2.sol\<newline>contract F2 {}'']"
    by code_simp
  have s2: "getSortedFilePaths 5 ?dia ''/proj'' [''contracts/A.sol'', ''contracts/D.sol''] ''/proj'' =
     Some (Inr [''contracts/D.sol'', ''contracts/C.sol'', ''contracts/B.sol'', ''contracts/A.sol''])"
    by code_simp
  have p2: "printConcatenation ?dia ''/proj''
       [''contracts/D.sol'', ''contracts/C.sol'', ''contracts/B.sol'', ''contracts/A.sol''] =
     Inr [''\<newline>// File: contracts/D.sol\<newline>contract D {}\<newline>// File: contracts/C.sol\<newline>contract C {}\<newline>// File: contracts/B.sol\<newline>contract B {}\<newline>// File: contracts/A.sol\<newline>contract A {}'']"
    by code_simp
  note a = file_markers_once[OF s1 p1]
  note b = file_markers_once[OF s2 p2]
  from a have 1: "count_list [''contracts/F2.sol'']
     (fileNameToGlobalName ?ext ''/proj'' ''contracts/F2.sol'' ''/proj'') = 1"
    and 2: "''\<newline>// File: contracts/F2.sol\<newline>contract F2 {}'' =
     concat (map (\<lambda>name. [CHR 0x0A] @ ''// File: '' @ name @ [CHR 0x0A] @
                           body_of ?ext ''/proj'' name) [''contracts/F2.sol''])"
    by simp_all
  from b have 3: "distinct [''contracts/D.sol'', ''contracts/C.sol'', ''contracts/B.sol'', ''contracts/A.sol'']"
    and 4: "count_list [''contracts/D.sol'', ''contracts/C.sol'', ''contracts/B.sol'', ''contracts/A.sol'']
     (fileNameToGlobalName ?dia ''/proj'' ''contracts/D.sol'' ''/proj'') = 1"
    and 5: "''\<newline>// File: contracts/D.sol\<newline>contract D {}\<newline>// File: contracts/C.sol\<newline>contract C {}\<newline>// File: contracts/B.sol\<newline>contract B {}\<newline>// File: contracts/A.sol\<newline>contract A {}'' =
     concat (map (\<lambda>name. [CHR 0x0A] @ ''// File: '' @ name @ [CHR 0x0A] @
                           body_of ?dia ''/proj'' name)
        [''contracts/D.sol'', ''contracts/C.sol'', ''contracts/B.sol'', ''contracts/A.sol''])"
    by simp_all
  from s1 p1 1 2 s2 p2 3 4 5 show ?thesis by blast
qed

section \<open>The depth-first sort meets the contract\<close>

text \<open>
  The theorems about \<open>getSortedFilePaths\<close> and \<open>flatten\<close> take what they need of
  \<open>graph.sort()\<close> as hypotheses (\<open>tsort_orders\<close>, \<open>tsort_detects_cycles\<close>). The
  depth-first sort of the concrete environment satisfies both at every graph: when it
  answers a list, the list holds the nodes of the graph once each, with the first end of
  every edge before the second; it never runs out of fuel; and on a graph with a cycle it
  answers its cycle error.
\<close>

lemma set_graph_nodes: "set (graph_nodes g) = fst ` set g \<union> snd ` set g"
  by (auto simp: graph_nodes_def set_unique)

lemma graph_succs_edge: "b \<in> set (graph_succs g a) \<longleftrightarrow> (a, b) \<in> set g"
  by (force simp: graph_succs_def)

lemma graph_succs_nodes: "set (graph_succs g a) \<subseteq> set (graph_nodes g)"
  by (auto simp: graph_succs_edge set_graph_nodes intro: rev_image_eqI)

lemma precedes_Cons:
  "x \<notin> set xs \<Longrightarrow> precedes xs a b \<Longrightarrow> precedes (x # xs) a b"
  by (auto simp: precedes_def index_in_Cons)

lemma precedes_head: "b \<in> set xs \<Longrightarrow> x \<notin> set xs \<Longrightarrow> precedes (x # xs) x b"
  by (auto simp: precedes_def index_in_Cons)

lemma closed_sorted_Cons:
  assumes c: "closed_sorted g perm" and n: "node \<notin> set perm"
    and s: "set (graph_succs g node) \<subseteq> set perm"
  shows "closed_sorted g (node # perm)"
  unfolding closed_sorted_def
proof (intro conjI ballI)
  show "distinct (node # perm)" using c n by (simp add: closed_sorted_def)
next
  fix a b assume a: "a \<in> set (node # perm)" and b: "b \<in> set (graph_succs g a)"
  show "precedes (node # perm) a b"
  proof (cases "a = node")
    case True
    with b s have "b \<in> set perm" by auto
    with True n show ?thesis by (simp add: precedes_head)
  next
    case False
    with a have "a \<in> set perm" by simp
    with c b have "precedes perm a b" by (simp add: closed_sorted_def)
    with n show ?thesis by (rule precedes_Cons)
  qed
qed

lemma tsort_visit_spec:
  "tsort_visit n g temp perm node = Some (Inr perm') \<Longrightarrow> closed_sorted g perm \<Longrightarrow>
     set temp \<inter> set perm = {} \<Longrightarrow> node \<in> set (graph_nodes g) \<Longrightarrow>
     \<exists>new. perm' = new @ perm \<and> closed_sorted g perm' \<and> node \<in> set perm' \<and>
           set new \<inter> set temp = {} \<and> set new \<subseteq> set (graph_nodes g)"
  "tsort_visit_all n g temp perm nodes = Some (Inr perm') \<Longrightarrow> closed_sorted g perm \<Longrightarrow>
     set temp \<inter> set perm = {} \<Longrightarrow> set nodes \<subseteq> set (graph_nodes g) \<Longrightarrow>
     \<exists>new. perm' = new @ perm \<and> closed_sorted g perm' \<and> set nodes \<subseteq> set perm' \<and>
           set new \<inter> set temp = {} \<and> set new \<subseteq> set (graph_nodes g)"
proof (induction n g temp perm node and n g temp perm nodes arbitrary: perm' and perm'
    rule: tsort_visit_tsort_visit_all.induct)
  case (1 g temp perm node)
  then show ?case by simp
next
  case (2 n g temp perm node)
  from "2.prems"(1) have nt: "node \<notin> set temp" by (auto split: if_splits)
  show ?case
  proof (cases "node \<in> set perm")
    case True
    with nt "2.prems"(1) have "perm' = perm" by simp
    with True "2.prems"(2) show ?thesis by (intro exI[of _ "[]"]) simp
  next
    case False
    with nt "2.prems"(1) obtain perm1 where
      va: "tsort_visit_all n g (node # temp) perm (graph_succs g node) = Some (Inr perm1)"
      and p': "perm' = node # perm1"
      by (auto split: option.splits sum.splits)
    have disj: "set (node # temp) \<inter> set perm = {}" using False "2.prems"(3) by auto
    from "2.IH"[OF nt False va "2.prems"(2) disj graph_succs_nodes]
    obtain new1 where n1: "perm1 = new1 @ perm" and c1: "closed_sorted g perm1"
      and s1: "set (graph_succs g node) \<subseteq> set perm1"
      and d1: "set new1 \<inter> set (node # temp) = {}" and u1: "set new1 \<subseteq> set (graph_nodes g)"
      by blast
    have np: "node \<notin> set perm1" using n1 d1 False by auto
    show ?thesis
    proof (intro exI[of _ "node # new1"] conjI)
      show "perm' = (node # new1) @ perm" using p' n1 by simp
      show "closed_sorted g perm'" unfolding p' using c1 np s1 by (rule closed_sorted_Cons)
      show "node \<in> set perm'" using p' by simp
      show "set (node # new1) \<inter> set temp = {}" using nt d1 by auto
      show "set (node # new1) \<subseteq> set (graph_nodes g)" using u1 "2.prems"(4) by simp
    qed
  qed
next
  case (3 n g temp perm)
  then show ?case by (intro exI[of _ "[]"]) simp
next
  case (4 n g temp perm node rest)
  from "4.prems"(1) obtain perm1 where
    v: "tsort_visit n g temp perm node = Some (Inr perm1)"
    and va: "tsort_visit_all n g temp perm1 rest = Some (Inr perm')"
    by (auto split: option.splits sum.splits)
  from "4.prems"(4) have nd: "node \<in> set (graph_nodes g)" and rs: "set rest \<subseteq> set (graph_nodes g)"
    by auto
  from "4.IH"(1)[OF v "4.prems"(2,3) nd]
  obtain new1 where n1: "perm1 = new1 @ perm" and c1: "closed_sorted g perm1"
    and m1: "node \<in> set perm1"
    and d1: "set new1 \<inter> set temp = {}" and u1: "set new1 \<subseteq> set (graph_nodes g)"
    by blast
  have disj: "set temp \<inter> set perm1 = {}" using n1 d1 "4.prems"(3) by auto
  from "4.IH"(2)[OF v refl va c1 disj rs]
  obtain new2 where n2: "perm' = new2 @ perm1" and c2: "closed_sorted g perm'"
    and m2: "set rest \<subseteq> set perm'"
    and d2: "set new2 \<inter> set temp = {}" and u2: "set new2 \<subseteq> set (graph_nodes g)"
    by blast
  show ?case
  proof (intro exI[of _ "new2 @ new1"] conjI)
    show "perm' = (new2 @ new1) @ perm" using n1 n2 by simp
    show "closed_sorted g perm'" by (rule c2)
    show "set (node # rest) \<subseteq> set perm'" using m1 m2 n2 by auto
    show "set (new2 @ new1) \<inter> set temp = {}" using d1 d2 by auto
    show "set (new2 @ new1) \<subseteq> set (graph_nodes g)" using u1 u2 by simp
  qed
qed

lemma tsort_visit_errors:
  "tsort_visit n g temp perm node = Some (Inl e) \<Longrightarrow> e = tsort_cycle_text"
  "tsort_visit_all n g temp perm nodes = Some (Inl e) \<Longrightarrow> e = tsort_cycle_text"
proof (induction n g temp perm node and n g temp perm nodes
    rule: tsort_visit_tsort_visit_all.induct)
  case (1 g temp perm node)
  then show ?case by simp
next
  case (2 n g temp perm node)
  then show ?case by (auto split: if_splits option.splits sum.splits)
next
  case (3 n g temp perm)
  then show ?case by simp
next
  case (4 n g temp perm node rest)
  then show ?case by (auto split: option.splits sum.splits)
qed

lemma stack_bound:
  assumes "distinct temp" "set temp \<subseteq> set N"
  shows "length temp \<le> card (set N)"
proof -
  have "length temp = card (set temp)" using assms(1) by (simp add: distinct_card)
  also have "\<dots> \<le> card (set N)" using assms(2) by (simp add: card_mono)
  finally show ?thesis .
qed

lemma tsort_visit_returns:
  "distinct temp \<Longrightarrow> set temp \<subseteq> set (graph_nodes g) \<Longrightarrow>
     card (set (graph_nodes g)) < n + length temp \<Longrightarrow> node \<in> set (graph_nodes g) \<Longrightarrow>
     tsort_visit n g temp perm node \<noteq> None"
  "distinct temp \<Longrightarrow> set temp \<subseteq> set (graph_nodes g) \<Longrightarrow>
     card (set (graph_nodes g)) < n + length temp \<Longrightarrow> set nodes \<subseteq> set (graph_nodes g) \<Longrightarrow>
     tsort_visit_all n g temp perm nodes \<noteq> None"
proof (induction n g temp perm node and n g temp perm nodes
    rule: tsort_visit_tsort_visit_all.induct)
  case (1 g temp perm node)
  from stack_bound[OF "1.prems"(1,2)] "1.prems"(3) show ?case by simp
next
  case (2 n g temp perm node)
  show ?case
  proof (cases "node \<in> set temp \<or> node \<in> set perm")
    case True
    then show ?thesis by auto
  next
    case False
    then have nt: "node \<notin> set temp" and np: "node \<notin> set perm" by auto
    have d: "distinct (node # temp)" using nt "2.prems"(1) by simp
    have s: "set (node # temp) \<subseteq> set (graph_nodes g)" using "2.prems"(2,4) by simp
    have c: "card (set (graph_nodes g)) < n + length (node # temp)" using "2.prems"(3) by simp
    from "2.IH"[OF nt np d s c graph_succs_nodes] show ?thesis
      using nt np by (auto split: option.splits sum.splits)
  qed
next
  case (3 n g temp perm)
  then show ?case by simp
next
  case (4 n g temp perm node rest)
  from "4.prems"(4) have nd: "node \<in> set (graph_nodes g)" and rs: "set rest \<subseteq> set (graph_nodes g)"
    by auto
  from "4.IH"(1)[OF "4.prems"(1,2,3) nd]
  obtain res where res: "tsort_visit n g temp perm node = Some res" by blast
  show ?case
  proof (cases res)
    case (Inl e)
    with res show ?thesis by simp
  next
    case (Inr perm1)
    from "4.IH"(2)[OF res Inr "4.prems"(1,2,3) rs] show ?thesis using res Inr by simp
  qed
qed

lemma closed_sorted_Nil: "closed_sorted g []"
  by (simp add: closed_sorted_def)

lemma tsort_dfs_sorted:
  assumes "tsort_dfs g = Inr srt"
  shows "set srt = set (graph_nodes g) \<and> distinct srt \<and> (\<forall>e\<in>set g. precedes srt (fst e) (snd e))"
proof -
  from assms have v: "tsort_visit_all (Suc (length (graph_nodes g))) g [] [] (graph_nodes g) = Some (Inr srt)"
    by (auto simp: tsort_dfs_def split: option.splits)
  from tsort_visit_spec(2)[OF v closed_sorted_Nil]
  obtain new where n: "srt = new @ []" and c: "closed_sorted g srt"
    and all: "set (graph_nodes g) \<subseteq> set srt" and sub: "set new \<subseteq> set (graph_nodes g)"
    by auto
  have 1: "set srt = set (graph_nodes g)" using n all sub by auto
  have 2: "distinct srt" using c by (simp add: closed_sorted_def)
  have 3: "\<forall>e\<in>set g. precedes srt (fst e) (snd e)"
  proof
    fix e assume e: "e \<in> set g"
    then have "fst e \<in> set srt" unfolding 1 set_graph_nodes by simp
    moreover have "snd e \<in> set (graph_succs g (fst e))" using e by (simp add: graph_succs_edge)
    ultimately show "precedes srt (fst e) (snd e)" using c unfolding closed_sorted_def by blast
  qed
  from 1 2 3 show ?thesis by blast
qed

lemma tsort_dfs_error:
  assumes "tsort_dfs g = Inl e"
  shows "e = tsort_cycle_text"
proof -
  have "tsort_visit_all (Suc (length (graph_nodes g))) g [] [] (graph_nodes g) \<noteq> None"
  proof (rule tsort_visit_returns(2))
    have "card (set (graph_nodes g)) \<le> length (graph_nodes g)" by (rule card_length)
    then show "card (set (graph_nodes g)) < Suc (length (graph_nodes g)) + length []" by simp
  qed simp_all
  then obtain r where r: "tsort_visit_all (Suc (length (graph_nodes g))) g [] [] (graph_nodes g) = Some r"
    by blast
  with assms have "r = Inl e" by (simp add: tsort_dfs_def)
  with r show ?thesis using tsort_visit_errors(2) by blast
qed

lemma precedes_trancl:
  assumes "\<forall>e\<in>set g. precedes srt (fst e) (snd e)" "(a, b) \<in> (set g)\<^sup>+"
  shows "index_in srt a < index_in srt b"
  using assms(2)
proof (induction rule: trancl.induct)
  case (r_into_trancl a b)
  with assms(1) have "precedes srt (fst (a, b)) (snd (a, b))" by blast
  then show ?case by (simp add: precedes_def)
next
  case (trancl_into_trancl a b c)
  from assms(1) trancl_into_trancl(2) have "precedes srt (fst (b, c)) (snd (b, c))" by blast
  then have "index_in srt b < index_in srt c" by (simp add: precedes_def)
  with trancl_into_trancl.IH show ?case by simp
qed

lemma ordered_acyclic:
  assumes "\<forall>e\<in>set g. precedes srt (fst e) (snd e)"
  shows "\<not> has_cycle g"
  using precedes_trancl[OF assms] unfolding has_cycle_def by fastforce

lemma tsort_cycle_text_marked: "str_includes tsort_cycle_text cycle_marker"
  by code_simp

lemma tsort_dfs_contract:
  assumes "tsort_sort ext = tsort_dfs"
  shows "tsort_orders ext g \<and> tsort_detects_cycles ext g"
proof
  show "tsort_orders ext g"
    unfolding tsort_orders_def assms using tsort_dfs_sorted[of g] set_graph_nodes[of g] by auto
  show "tsort_detects_cycles ext g"
    unfolding tsort_detects_cycles_def assms
  proof
    assume cyc: "has_cycle g"
    show "\<exists>e. tsort_dfs g = Inl e \<and> str_includes e cycle_marker"
    proof (cases "tsort_dfs g")
      case (Inl e)
      with tsort_dfs_error[OF Inl] tsort_cycle_text_marked show ?thesis by simp
    next
      case (Inr srt)
      from tsort_dfs_sorted[OF Inr] ordered_acyclic cyc show ?thesis by blast
    qed
  qed
qed

section \<open>The steps of \<open>flatten\<close>\<close>

lemma flatten_chosen_root:
  "flatten n ext cwd filePaths root =
     (case chosen_root ext cwd root of
        Inl e \<Rightarrow> Some (failed e cwd)
      | Inr truffleRoot \<Rightarrow> flatten_with_root n ext cwd filePaths truffleRoot)"
  by (simp add: flatten_def chosen_root_def split: option.splits sum.splits)

lemma flatten_after_chdir:
  assumes "chosen_root ext cwd root = Inr truffleRoot"
    and "process_chdir ext cwd truffleRoot = Inr cwd1"
  shows "flatten n ext cwd filePaths root =
     flatten_in_root n ext cwd cwd1 (getFilePathsFromTruffleRoot ext cwd filePaths truffleRoot) truffleRoot"
  using assms by (simp add: flatten_chosen_root flatten_with_root_def Let_def)

section \<open>Cycles\<close>

lemma sublist_join: "v \<in> set xs \<Longrightarrow> sublist v (join sep xs)"
proof (induction sep xs rule: join.induct)
  case (1 sep)
  then show ?case by simp
next
  case (2 sep x)
  then show ?case by simp
next
  case (3 sep x y ys)
  show ?case
  proof (cases "v = x")
    case True
    then show ?thesis by simp
  next
    case False
    with 3 have "sublist v (join sep (y # ys))" by simp
    then show ?thesis
      using sublist_append by (metis join.simps(3))
  qed
qed

text \<open>
  Claim C3. When the graph built from the entry points has a cycle and \<open>graph.sort()\<close>
  throws its cycle error for it, \<open>flatten\<close> fails with the error whose message is the
  cycle text followed by the visited files, every visited file occurs in the message,
  nothing is sent to the sink, and the working directory stays at the project root.
\<close>

theorem cycle_fails:
  assumes root: "chosen_root ext cwd root = Inr truffleRoot"
    and chdir: "process_chdir ext cwd truffleRoot = Inr cwd1"
    and build: "dfs_entries n ext cwd1 ([], [])
                  (getFilePathsFromTruffleRoot ext cwd filePaths truffleRoot)
                  = Some (Inr (g, visitedFiles))"
    and cyc: "has_cycle g"
    and tsort: "tsort_detects_cycles ext g"
  shows "flatten n ext cwd filePaths root =
           Some \<lparr>outcome = Inl (Error (cycle_message visitedFiles)), cwd_after = cwd1, emitted = []\<rparr> \<and>
         (\<forall>v\<in>set visitedFiles. sublist v (cycle_message visitedFiles))"
proof -
  from cyc tsort obtain e where e: "tsort_sort ext g = Inl e" "str_includes e cycle_marker"
    unfolding tsort_detects_cycles_def by blast
  then have s: "sort_graph ext g visitedFiles = Inl (Error (cycle_message visitedFiles))"
    by (simp add: sort_graph_def)
  have "getSortedFilePaths n ext cwd1 (getFilePathsFromTruffleRoot ext cwd filePaths truffleRoot)
      truffleRoot = Some (Inl (Error (cycle_message visitedFiles)))"
    using build s by (simp add: getSortedFilePaths_def)
  then have "flatten_in_root n ext cwd cwd1
      (getFilePathsFromTruffleRoot ext cwd filePaths truffleRoot) truffleRoot
      = Some (failed (Error (cycle_message visitedFiles)) cwd1)"
    by (simp add: flatten_in_root_def)
  then have 1: "flatten n ext cwd filePaths root =
           Some \<lparr>outcome = Inl (Error (cycle_message visitedFiles)), cwd_after = cwd1, emitted = []\<rparr>"
    unfolding flatten_after_chdir[OF root chdir] by (simp add: failed_def)
  have 2: "\<forall>v\<in>set visitedFiles. sublist v (cycle_message visitedFiles)"
  proof
    fix v assume "v \<in> set visitedFiles"
    then have "sublist v (join [CHR 0x0A, CHR 0x09] visitedFiles)" by (rule sublist_join)
    then show "sublist v (cycle_message visitedFiles)"
      unfolding cycle_message_def using sublist_append by blast
  qed
  from 1 2 show ?thesis by blast
qed

theorem cycle_fails_witness:
  "flatten 5 (posix_ext fs_cycle) ''/proj'' [''contracts/A.sol''] (Some ''/proj'') =
     Some \<lparr>outcome = Inl (Error (cycle_message
              [''contracts/A.sol'', ''/proj/contracts/B.sol'', ''/proj/contracts/A.sol''])),
           cwd_after = ''/proj'', emitted = []\<rparr> \<and>
   sublist ''/proj/contracts/B.sol''
     (cycle_message [''contracts/A.sol'', ''/proj/contracts/B.sol'', ''/proj/contracts/A.sol''])"
proof -
  let ?g = "[(''/proj/contracts/B.sol'', ''contracts/A.sol''),
             (''/proj/contracts/A.sol'', ''/proj/contracts/B.sol''),
             (''/proj/contracts/B.sol'', ''/proj/contracts/A.sol'')]"
  let ?vis = "[''contracts/A.sol'', ''/proj/contracts/B.sol'', ''/proj/contracts/A.sol'']"
  have r: "chosen_root (posix_ext fs_cycle) ''/proj'' (Some ''/proj'') = Inr ''/proj''"
    by code_simp
  have c: "process_chdir (posix_ext fs_cycle) ''/proj'' ''/proj'' = Inr ''/proj''"
    by code_simp
  have b: "dfs_entries 5 (posix_ext fs_cycle) ''/proj'' ([], [])
       (getFilePathsFromTruffleRoot (posix_ext fs_cycle) ''/proj'' [''contracts/A.sol''] ''/proj'')
     = Some (Inr (?g, ?vis))"
    by code_simp
  have "(''/proj/contracts/A.sol'', ''/proj/contracts/B.sol'') \<in> set ?g"
    "(''/proj/contracts/B.sol'', ''/proj/contracts/A.sol'') \<in> set ?g" by simp_all
  then have "(''/proj/contracts/A.sol'', ''/proj/contracts/A.sol'') \<in> (set ?g)\<^sup>+"
    by (meson r_into_trancl trancl_trans)
  then have h: "has_cycle ?g" unfolding has_cycle_def by blast
  have t: "tsort_sort (posix_ext fs_cycle) ?g = Inl tsort_cycle_text"
    by code_simp
  have i: "str_includes tsort_cycle_text cycle_marker" by code_simp
  have d: "tsort_detects_cycles (posix_ext fs_cycle) ?g"
    unfolding tsort_detects_cycles_def using t i by simp
  from cycle_fails[OF r c b h d] show ?thesis by simp
qed

section \<open>Dependencies come first\<close>

lemma index_in_nth: "x \<in> set xs \<Longrightarrow> xs ! index_in xs x = x"
  by (induction xs) (auto simp: index_in_Cons)

lemma index_in_first: "i < length xs \<Longrightarrow> xs ! i = x \<Longrightarrow> index_in xs x \<le> i"
proof (induction xs arbitrary: i)
  case Nil
  then show ?case by simp
next
  case (Cons y ys)
  then show ?case by (cases i) (auto simp: index_in_Cons)
qed

lemma map_first_occurrence:
  assumes p: "\<forall>e\<in>set g. precedes srt (fst e) (snd e)"
    and t: "t \<in> set srt"
    and h: "\<forall>y\<in>set srt. f y = f t \<longrightarrow> (\<exists>x. (x, y) \<in> set g \<and> f x = f d)"
  shows "index_in (map f srt) (f d) < index_in (map f srt) (f t)"
proof -
  let ?ms = "map f srt" and ?i = "index_in (map f srt) (f t)"
  have ft: "f t \<in> set ?ms" using t by simp
  then have il: "?i < length srt" using index_in_less[of ?ms "f t"] by simp
  have "?ms ! ?i = f t" using ft by (rule index_in_nth)
  then have fy: "f (srt ! ?i) = f t" using il by simp
  have "srt ! ?i \<in> set srt" using il by simp
  with h fy obtain x where e: "(x, srt ! ?i) \<in> set g" and fx: "f x = f d" by blast
  from p e have pr: "precedes srt x (srt ! ?i)" by fastforce
  then have xs: "x \<in> set srt" and lt: "index_in srt x < index_in srt (srt ! ?i)"
    by (simp_all add: precedes_def)
  have "index_in srt (srt ! ?i) \<le> ?i" using il by (intro index_in_first) simp_all
  with lt have a: "index_in srt x < ?i" by simp
  have xl: "index_in srt x < length srt" using xs by (simp add: index_in_less)
  have "srt ! index_in srt x = x" using xs by (rule index_in_nth)
  then have "?ms ! index_in srt x = f d" using xl fx by simp
  then have "index_in ?ms (f d) \<le> index_in srt x" using xl by (intro index_in_first) simp_all
  with a show ?thesis by simp
qed

lemma unique_map_first_occurrence:
  assumes p: "\<forall>e\<in>set g. precedes srt (fst e) (snd e)"
    and e: "(d, t) \<in> set g"
    and h: "\<forall>y\<in>set srt. f y = f t \<longrightarrow> (\<exists>x. (x, y) \<in> set g \<and> f x = f d)"
  shows "precedes (unique (map f (srt @ eps))) (f d) (f t)"
proof -
  from p e have "precedes srt d t" by fastforce
  then have d: "d \<in> set srt" and t: "t \<in> set srt" by (simp_all add: precedes_def)
  have md: "f d \<in> set (map f srt)" and mt: "f t \<in> set (map f srt)" using d t by simp_all
  have "index_in (map f srt) (f d) < index_in (map f srt) (f t)"
    using p t h by (rule map_first_occurrence)
  then have "index_in (map f (srt @ eps)) (f d) < index_in (map f (srt @ eps)) (f t)"
    using md mt by (simp add: index_in_append)
  moreover have "f d \<in> set (map f (srt @ eps))" "f t \<in> set (map f (srt @ eps))"
    using d t by simp_all
  ultimately show ?thesis
    using unique_order[of "f d" "map f (srt @ eps)" "f t"] by (simp add: precedes_def set_unique)
qed


lemma global_name_fun:
  "(\<lambda>f. fileNameToGlobalName ext cwd f truffleRoot) = global_name ext cwd truffleRoot"
  by (rule ext) (simp add: global_name_def)

text \<open>
  Claim C1, as the code has it. Take an edge \<open>(d, t)\<close> of the graph built from the entry
  points, and suppose that \<open>graph.sort()\<close> answers nodes of the graph with the first end
  of every edge before the second (\<open>tsort_orders\<close>), that every node with the global name
  of \<open>t\<close> imports a node with the global name of \<open>d\<close> (as is the case when no other node
  has the global name of \<open>t\<close>), and that the resolver, asked for the global names of \<open>d\<close>
  and \<open>t\<close>, finds what it found for \<open>d\<close> and \<open>t\<close> (\<open>cleanFile\<close> resolves the global name,
  the traversal resolved the identifier). Then the list of \<open>getSortedFilePaths\<close> has the
  global name of \<open>d\<close> before that of \<open>t\<close>, and in the text \<open>printConcatenation\<close> emits,
  the marker of \<open>d\<close> (a line feed, \<open>// File: \<close>, the global name, a line feed) and the
  cleaned body of \<open>d\<close> stand before the marker and the cleaned body of \<open>t\<close>.
\<close>

theorem dependency_before_dependent:
  assumes build: "dfs_entries n ext cwd ([], []) entryPoints = Some (Inr (g, visitedFiles))"
    and sorted: "getSortedFilePaths n ext cwd entryPoints truffleRoot = Some (Inr files)"
    and tsort: "tsort_orders ext g"
    and edge: "(d, t) \<in> set g"
    and same: "\<forall>y\<in>fst ` set g \<union> snd ` set g.
               global_name ext cwd truffleRoot y = global_name ext cwd truffleRoot t \<longrightarrow>
               (\<exists>x. (x, y) \<in> set g \<and>
                    global_name ext cwd truffleRoot x = global_name ext cwd truffleRoot d)"
    and found_d: "resolve ext cwd (global_name ext cwd truffleRoot d) = resolve ext cwd d"
    and found_t: "resolve ext cwd (global_name ext cwd truffleRoot t) = resolve ext cwd t"
  shows "precedes files (global_name ext cwd truffleRoot d) (global_name ext cwd truffleRoot t) \<and>
         (\<forall>chunks. printConcatenation ext cwd files = Inr chunks \<longrightarrow>
            (\<exists>pre mid post.
               last chunks =
                 pre @ [CHR 0x0A] @ ''// File: '' @ global_name ext cwd truffleRoot d @ [CHR 0x0A] @
                         body_of ext cwd d @
                 mid @ [CHR 0x0A] @ ''// File: '' @ global_name ext cwd truffleRoot t @ [CHR 0x0A] @
                         body_of ext cwd t @
                 post))"
proof -
  from build sorted obtain srt where
    srt: "tsort_sort ext g = Inr srt"
    and f: "files = unique (map (global_name ext cwd truffleRoot) (srt @ entryPoints))"
    by (auto simp: getSortedFilePaths_def sort_graph_def global_name_fun
        split: option.splits sum.splits if_splits)
  from tsort srt have sub: "set srt \<subseteq> fst ` set g \<union> snd ` set g"
    and p: "\<forall>e\<in>set g. precedes srt (fst e) (snd e)"
    unfolding tsort_orders_def by auto
  have same': "\<forall>y\<in>set srt.
      global_name ext cwd truffleRoot y = global_name ext cwd truffleRoot t \<longrightarrow>
      (\<exists>x. (x, y) \<in> set g \<and> global_name ext cwd truffleRoot x = global_name ext cwd truffleRoot d)"
    using same sub by blast
  have pr: "precedes files (global_name ext cwd truffleRoot d) (global_name ext cwd truffleRoot t)"
    unfolding f using p edge same' by (rule unique_map_first_occurrence)
  have bd: "body_of ext cwd (global_name ext cwd truffleRoot d) = body_of ext cwd d"
    by (simp add: body_of_def cleanFile_def found_d)
  have bt: "body_of ext cwd (global_name ext cwd truffleRoot t) = body_of ext cwd t"
    by (simp add: body_of_def cleanFile_def found_t)
  have out: "\<exists>pre mid post.
               last chunks =
                 pre @ [CHR 0x0A] @ ''// File: '' @ global_name ext cwd truffleRoot d @ [CHR 0x0A] @
                         body_of ext cwd d @
                 mid @ [CHR 0x0A] @ ''// File: '' @ global_name ext cwd truffleRoot t @ [CHR 0x0A] @
                         body_of ext cwd t @
                 post"
    if pc: "printConcatenation ext cwd files = Inr chunks" for chunks
  proof -
    from precedes_split[OF pr] obtain ps qs rs where
      sp: "files = ps @ global_name ext cwd truffleRoot d # qs @
                   global_name ext cwd truffleRoot t # rs" by blast
    have "last chunks = concat (map (\<lambda>name. file_marker name @ body_of ext cwd name) files)"
      using printConcatenation_chunks[OF pc] by (simp add: last_emit_chunks)
    then have "last chunks =
        concat (map (\<lambda>name. file_marker name @ body_of ext cwd name) ps) @
        [CHR 0x0A] @ ''// File: '' @ global_name ext cwd truffleRoot d @ [CHR 0x0A] @
          body_of ext cwd d @
        concat (map (\<lambda>name. file_marker name @ body_of ext cwd name) qs) @
        [CHR 0x0A] @ ''// File: '' @ global_name ext cwd truffleRoot t @ [CHR 0x0A] @
          body_of ext cwd t @
        concat (map (\<lambda>name. file_marker name @ body_of ext cwd name) rs)"
      unfolding sp by (simp add: file_marker_def bd bt)
    then show ?thesis by blast
  qed
  from pr out show ?thesis by blast
qed

theorem dependency_before_dependent_witness:
  "getSortedFilePaths 5 (posix_ext fs_shared) ''/proj'' [''contracts/A.sol'', ''contracts/B.sol''] ''/proj'' =
     Some (Inr [''contracts/C.sol'', ''contracts/A.sol'', ''contracts/B.sol'']) \<and>
   precedes [''contracts/C.sol'', ''contracts/A.sol'', ''contracts/B.sol'']
     ''contracts/C.sol'' ''contracts/A.sol'' \<and>
   printConcatenation (posix_ext fs_shared) ''/proj''
       [''contracts/C.sol'', ''contracts/A.sol'', ''contracts/B.sol''] =
     Inr [''\<newline>// File: contracts/C.sol\<newline>contract C {}\<newline>// File: contracts/A.sol\<newline>contract A {}\<newline>// File: contracts/B.sol\<newline>contract B {}''] \<and>
   (\<exists>pre mid post.
      ''\<newline>// File: contracts/C.sol\<newline>contract C {}\<newline>// File: contracts/A.sol\<newline>contract A {}\<newline>// File: contracts/B.sol\<newline>contract B {}'' =
        pre @ [CHR 0x0A] @ ''// File: '' @ ''contracts/C.sol'' @ [CHR 0x0A] @ ''contract C {}'' @
        mid @ [CHR 0x0A] @ ''// File: '' @ ''contracts/A.sol'' @ [CHR 0x0A] @ ''contract A {}'' @
        post)"
proof -
  let ?ext = "posix_ext fs_shared"
  let ?g = "[(''/proj/contracts/C.sol'', ''contracts/A.sol''),
             (''/proj/contracts/A.sol'', ''contracts/B.sol''),
             (''/proj/contracts/C.sol'', ''/proj/contracts/A.sol'')]"
  have b: "dfs_entries 5 ?ext ''/proj'' ([], []) [''contracts/A.sol'', ''contracts/B.sol''] =
      Some (Inr (?g, [''contracts/A.sol'', ''/proj/contracts/C.sol'', ''contracts/B.sol'',
                      ''/proj/contracts/A.sol'']))"
    by code_simp
  have s: "getSortedFilePaths 5 ?ext ''/proj'' [''contracts/A.sol'', ''contracts/B.sol''] ''/proj'' =
      Some (Inr [''contracts/C.sol'', ''contracts/A.sol'', ''contracts/B.sol''])"
    by code_simp
  have t: "tsort_orders ?ext ?g"
    using tsort_dfs_contract[of ?ext ?g] by (simp add: posix_ext_def)
  have e: "(''/proj/contracts/C.sol'', ''/proj/contracts/A.sol'') \<in> set ?g" by simp
  have gc: "global_name ?ext ''/proj'' ''/proj'' ''/proj/contracts/C.sol'' = ''contracts/C.sol''"
    by code_simp
  have ga: "global_name ?ext ''/proj'' ''/proj'' ''/proj/contracts/A.sol'' = ''contracts/A.sol''"
    by code_simp
  have ga': "global_name ?ext ''/proj'' ''/proj'' ''contracts/A.sol'' = ''contracts/A.sol''"
    by code_simp
  have gb: "global_name ?ext ''/proj'' ''/proj'' ''contracts/B.sol'' = ''contracts/B.sol''"
    by code_simp
  have same: "\<forall>y\<in>fst ` set ?g \<union> snd ` set ?g.
      global_name ?ext ''/proj'' ''/proj'' y = global_name ?ext ''/proj'' ''/proj'' ''/proj/contracts/A.sol'' \<longrightarrow>
      (\<exists>x. (x, y) \<in> set ?g \<and>
           global_name ?ext ''/proj'' ''/proj'' x = global_name ?ext ''/proj'' ''/proj'' ''/proj/contracts/C.sol'')"
    using gc ga ga' gb by auto
  have rc: "resolve ?ext ''/proj'' ''/proj/contracts/C.sol'' =
      Inr \<lparr>fileContents = ''contract C {}'', filePath = ''/proj/contracts/C.sol''\<rparr>"
    by code_simp
  have rc': "resolve ?ext ''/proj'' ''contracts/C.sol'' =
      Inr \<lparr>fileContents = ''contract C {}'', filePath = ''/proj/contracts/C.sol''\<rparr>"
    by code_simp
  have ra: "resolve ?ext ''/proj'' ''/proj/contracts/A.sol'' = resolve ?ext ''/proj'' ''contracts/A.sol''"
    by code_simp
  have fd: "resolve ?ext ''/proj'' (global_name ?ext ''/proj'' ''/proj'' ''/proj/contracts/C.sol'') =
      resolve ?ext ''/proj'' ''/proj/contracts/C.sol''"
    unfolding gc rc rc' by (rule refl)
  have ft: "resolve ?ext ''/proj'' (global_name ?ext ''/proj'' ''/proj'' ''/proj/contracts/A.sol'') =
      resolve ?ext ''/proj'' ''/proj/contracts/A.sol''"
    unfolding ga ra by (rule refl)
  have bc: "body_of ?ext ''/proj'' ''/proj/contracts/C.sol'' = ''contract C {}''" by code_simp
  have ba: "body_of ?ext ''/proj'' ''/proj/contracts/A.sol'' = ''contract A {}''" by code_simp
  have pc: "printConcatenation ?ext ''/proj''
       [''contracts/C.sol'', ''contracts/A.sol'', ''contracts/B.sol''] =
     Inr [''\<newline>// File: contracts/C.sol\<newline>contract C {}\<newline>// File: contracts/A.sol\<newline>contract A {}\<newline>// File: contracts/B.sol\<newline>contract B {}'']"
    by code_simp
  note th = dependency_before_dependent[OF b s t e same fd ft, unfolded gc ga bc ba]
  from th have 1: "precedes [''contracts/C.sol'', ''contracts/A.sol'', ''contracts/B.sol'']
     ''contracts/C.sol'' ''contracts/A.sol''"
    by blast
  from th pc have 2: "\<exists>pre mid post.
      last [''\<newline>// File: contracts/C.sol\<newline>contract C {}\<newline>// File: contracts/A.sol\<newline>contract A {}\<newline>// File: contracts/B.sol\<newline>contract B {}''] =
        pre @ [CHR 0x0A] @ ''// File: '' @ ''contracts/C.sol'' @ [CHR 0x0A] @ ''contract C {}'' @
        mid @ [CHR 0x0A] @ ''// File: '' @ ''contracts/A.sol'' @ [CHR 0x0A] @ ''contract A {}'' @
        post"
    by blast
  then have 3: "\<exists>pre mid post.
      ''\<newline>// File: contracts/C.sol\<newline>contract C {}\<newline>// File: contracts/A.sol\<newline>contract A {}\<newline>// File: contracts/B.sol\<newline>contract B {}'' =
        pre @ [CHR 0x0A] @ ''// File: '' @ ''contracts/C.sol'' @ [CHR 0x0A] @ ''contract C {}'' @
        mid @ [CHR 0x0A] @ ''// File: '' @ ''contracts/A.sol'' @ [CHR 0x0A] @ ''contract A {}'' @
        post"
    unfolding last.simps by simp
  from s 1 pc 3 show ?thesis by blast
qed

text \<open>
  Claim C1, as the spec states it, holds for every edge. In \<open>fs_collision\<close> the file
  \<open>lib/Token.sol\<close> imports \<open>../node_modules/lib/Token.sol\<close>; both have the global name
  \<open>lib/Token.sol\<close>, the list holds it once, and the output holds the body of the
  importing file only. In \<open>fs_shadow\<close> the file \<open>contracts/T.sol\<close> imports
  \<open>../node_modules/lib/X.sol\<close>, whose global name \<open>lib/X.sol\<close> is also the path of a file
  of the project: the list has \<open>lib/X.sol\<close> before \<open>contracts/T.sol\<close>, but \<open>cleanFile\<close>
  resolves the name to the file of the project, and the body of the imported file is
  nowhere in the output.
\<close>

theorem same_global_name_counterexample:
  "dfs_entries 5 (posix_ext fs_collision) ''/proj'' ([], []) [''lib/Token.sol''] =
     Some (Inr ([(''/proj/node_modules/lib/Token.sol'', ''lib/Token.sol'')],
                [''lib/Token.sol'', ''/proj/node_modules/lib/Token.sol''])) \<and>
   tsort_sort (posix_ext fs_collision) [(''/proj/node_modules/lib/Token.sol'', ''lib/Token.sol'')] =
     Inr [''/proj/node_modules/lib/Token.sol'', ''lib/Token.sol''] \<and>
   getSortedFilePaths 5 (posix_ext fs_collision) ''/proj'' [''lib/Token.sol''] ''/proj'' =
     Some (Inr [''lib/Token.sol'']) \<and>
   global_name (posix_ext fs_collision) ''/proj'' ''/proj'' ''/proj/node_modules/lib/Token.sol'' =
     ''lib/Token.sol'' \<and>
   global_name (posix_ext fs_collision) ''/proj'' ''/proj'' ''lib/Token.sol'' = ''lib/Token.sol'' \<and>
   \<not> precedes [''lib/Token.sol''] ''lib/Token.sol'' ''lib/Token.sol'' \<and>
   printConcatenation (posix_ext fs_collision) ''/proj'' [''lib/Token.sol''] =
     Inr [''\<newline>// File: lib/Token.sol\<newline>contract Token is Base {}''] \<and>
   dfs_entries 5 (posix_ext fs_shadow) ''/proj'' ([], []) [''contracts/T.sol''] =
     Some (Inr ([(''/proj/node_modules/lib/X.sol'', ''contracts/T.sol'')],
                [''contracts/T.sol'', ''/proj/node_modules/lib/X.sol''])) \<and>
   body_of (posix_ext fs_shadow) ''/proj'' ''/proj/node_modules/lib/X.sol'' = ''contract Base {}'' \<and>
   global_name (posix_ext fs_shadow) ''/proj'' ''/proj'' ''/proj/node_modules/lib/X.sol'' =
     ''lib/X.sol'' \<and>
   getSortedFilePaths 5 (posix_ext fs_shadow) ''/proj'' [''contracts/T.sol''] ''/proj'' =
     Some (Inr [''lib/X.sol'', ''contracts/T.sol'']) \<and>
   printConcatenation (posix_ext fs_shadow) ''/proj'' [''lib/X.sol'', ''contracts/T.sol''] =
     Inr [''\<newline>// File: lib/X.sol\<newline>contract Other {}\<newline>// File: contracts/T.sol\<newline>contract T is Base {}''] \<and>
   \<not> sublist ''contract Base {}''
       ''\<newline>// File: lib/X.sol\<newline>contract Other {}\<newline>// File: contracts/T.sol\<newline>contract T is Base {}''"
proof (intro conjI)
  show "\<not> precedes [''lib/Token.sol''] ''lib/Token.sol'' ''lib/Token.sol''"
    by (simp add: precedes_def)
  show "\<not> sublist ''contract Base {}''
       ''\<newline>// File: lib/X.sol\<newline>contract Other {}\<newline>// File: contracts/T.sol\<newline>contract T is Base {}''"
    by (simp add: sublist_Cons_right)
qed code_simp+

section \<open>The working directory of the process\<close>

lemma flatten_in_root_cwd:
  assumes "flatten_in_root n ext wd cwd1 eps truffleRoot = Some r"
  shows "(outcome r = Inr () \<longrightarrow> process_chdir ext cwd1 wd = Inr (cwd_after r) \<and>
            (\<exists>files. getSortedFilePaths n ext cwd1 eps truffleRoot = Some (Inr files) \<and>
                     printConcatenation ext cwd1 files = Inr (emitted r))) \<and>
         (\<forall>e. outcome r = Inl e \<longrightarrow> cwd_after r = cwd1)"
  using assms
  by (auto simp: flatten_in_root_def failed_def split: option.splits sum.splits)

text \<open>
  Claim C10. A \<open>flatten\<close> that succeeds has sorted and printed the files with the
  project root as the working directory and ends in the working directory it started
  in. A \<open>flatten\<close> that fails ends in the project root when it had changed to it, and
  in the directory it started in when it failed before the change.
\<close>

theorem flatten_working_directory:
  assumes run: "flatten n ext cwd filePaths root = Some r"
    and lands: "chdir_lands ext cwd"
  shows "(outcome r = Inr () \<longrightarrow> cwd_after r = cwd \<and>
            (\<exists>truffleRoot cwd1 files.
               chosen_root ext cwd root = Inr truffleRoot \<and>
               process_chdir ext cwd truffleRoot = Inr cwd1 \<and>
               getSortedFilePaths n ext cwd1
                 (getFilePathsFromTruffleRoot ext cwd filePaths truffleRoot) truffleRoot =
                 Some (Inr files) \<and>
               printConcatenation ext cwd1 files = Inr (emitted r))) \<and>
         (\<forall>e. outcome r = Inl e \<longrightarrow>
            (case chosen_root ext cwd root of
               Inl e' \<Rightarrow> cwd_after r = cwd
             | Inr truffleRoot \<Rightarrow>
                 (case process_chdir ext cwd truffleRoot of
                    Inl e' \<Rightarrow> cwd_after r = cwd
                  | Inr cwd1 \<Rightarrow> cwd_after r = cwd1)))"
proof (cases "chosen_root ext cwd root")
  case (Inl e')
  with run have "r = failed e' cwd" by (simp add: flatten_chosen_root)
  then show ?thesis using Inl by (simp add: failed_def)
next
  case (Inr truffleRoot)
  with run have w: "flatten_with_root n ext cwd filePaths truffleRoot = Some r"
    by (simp add: flatten_chosen_root)
  show ?thesis
  proof (cases "process_chdir ext cwd truffleRoot")
    case (Inl e')
    with w have "r = failed e' cwd" by (simp add: flatten_with_root_def Let_def)
    then show ?thesis using Inl Inr by (simp add: failed_def)
  next
    case c: (Inr cwd1)
    with w have "flatten_in_root n ext cwd cwd1
        (getFilePathsFromTruffleRoot ext cwd filePaths truffleRoot) truffleRoot = Some r"
      by (simp add: flatten_with_root_def Let_def)
    from flatten_in_root_cwd[OF this]
    have s: "outcome r = Inr () \<longrightarrow> process_chdir ext cwd1 cwd = Inr (cwd_after r)"
      and d: "outcome r = Inr () \<longrightarrow>
            (\<exists>files. getSortedFilePaths n ext cwd1
                 (getFilePathsFromTruffleRoot ext cwd filePaths truffleRoot) truffleRoot =
                 Some (Inr files) \<and>
               printConcatenation ext cwd1 files = Inr (emitted r))"
      and f: "\<forall>e. outcome r = Inl e \<longrightarrow> cwd_after r = cwd1" by blast+
    from s lands have "outcome r = Inr () \<longrightarrow> cwd_after r = cwd"
      unfolding chdir_lands_def by blast
    with f d show ?thesis using Inr c by simp
  qed
qed

theorem flatten_working_directory_witness:
  "flatten 5 (posix_ext fs_chain) ''/home'' [''/proj/contracts/F1.sol''] (Some ''/proj'') =
     Some \<lparr>outcome = Inr (), cwd_after = ''/home'',
           emitted = [''pragma solidity ^0.5.0;'',
             file_marker ''contracts/F2.sol'' @ ''contract F2 {}'' @
             file_marker ''contracts/F1.sol'' @ ''contract F1 {}'']\<rparr> \<and>
   chosen_root (posix_ext fs_cycle) ''/home'' (Some ''/proj'') = Inr ''/proj'' \<and>
   process_chdir (posix_ext fs_cycle) ''/home'' ''/proj'' = Inr ''/proj'' \<and>
   (\<exists>e. flatten 5 (posix_ext fs_cycle) ''/home'' [''/proj/contracts/A.sol''] (Some ''/proj'') =
     Some \<lparr>outcome = Inl e, cwd_after = ''/proj'', emitted = []\<rparr>)"
proof -
  have l1: "chdir_lands (posix_ext fs_chain) ''/home''"
    by (simp add: chdir_lands_def posix_ext_def posix_resolve_def posix_isAbsolute_def
        normalizeSegments_def normalize_step_def)
  have l2: "chdir_lands (posix_ext fs_cycle) ''/home''"
    by (simp add: chdir_lands_def posix_ext_def posix_resolve_def posix_isAbsolute_def
        normalizeSegments_def normalize_step_def)
  obtain r1 where r1: "flatten 5 (posix_ext fs_chain) ''/home'' [''/proj/contracts/F1.sol''] (Some ''/proj'')
      = Some r1" and o1: "outcome r1 = Inr ()"
    and e1: "emitted r1 = [''pragma solidity ^0.5.0;'',
             file_marker ''contracts/F2.sol'' @ ''contract F2 {}'' @
             file_marker ''contracts/F1.sol'' @ ''contract F1 {}'']"
  proof -
    have "flatten 5 (posix_ext fs_chain) ''/home'' [''/proj/contracts/F1.sol''] (Some ''/proj'') =
     Some \<lparr>outcome = Inr (), cwd_after = ''/home'',
           emitted = [''pragma solidity ^0.5.0;'',
             file_marker ''contracts/F2.sol'' @ ''contract F2 {}'' @
             file_marker ''contracts/F1.sol'' @ ''contract F1 {}'']\<rparr>"
      by code_simp
    then show ?thesis using that by simp
  qed
  from flatten_working_directory[OF r1 l1] o1 have c1: "cwd_after r1 = ''/home''" by blast
  have 1: "flatten 5 (posix_ext fs_chain) ''/home'' [''/proj/contracts/F1.sol''] (Some ''/proj'') =
     Some \<lparr>outcome = Inr (), cwd_after = ''/home'',
           emitted = [''pragma solidity ^0.5.0;'',
             file_marker ''contracts/F2.sol'' @ ''contract F2 {}'' @
             file_marker ''contracts/F1.sol'' @ ''contract F1 {}'']\<rparr>"
    using r1 o1 e1 c1 by (cases r1) simp
  have ch: "chosen_root (posix_ext fs_cycle) ''/home'' (Some ''/proj'') = Inr ''/proj''"
    by code_simp
  have cd: "process_chdir (posix_ext fs_cycle) ''/home'' ''/proj'' = Inr ''/proj''"
    by code_simp
  obtain r2 e where r2: "flatten 5 (posix_ext fs_cycle) ''/home'' [''/proj/contracts/A.sol''] (Some ''/proj'')
      = Some r2" and o2: "outcome r2 = Inl e" and e2: "emitted r2 = []"
  proof -
    have "flatten 5 (posix_ext fs_cycle) ''/home'' [''/proj/contracts/A.sol''] (Some ''/proj'') =
      Some \<lparr>outcome = Inl (Error (cycle_message
              [''contracts/A.sol'', ''/proj/contracts/B.sol'', ''/proj/contracts/A.sol''])),
           cwd_after = ''/proj'', emitted = []\<rparr>"
      by code_simp
    then show ?thesis using that by simp
  qed
  from flatten_working_directory[OF r2 l2] o2 have c2: "cwd_after r2 = ''/proj''"
    by (simp add: ch cd)
  have 2: "\<exists>e. flatten 5 (posix_ext fs_cycle) ''/home'' [''/proj/contracts/A.sol''] (Some ''/proj'') =
     Some \<lparr>outcome = Inl e, cwd_after = ''/proj'', emitted = []\<rparr>"
    using r2 o2 e2 c2 by (cases r2) auto
  from 1 ch cd 2 show ?thesis by blast
qed

section \<open>Errors\<close>












section \<open>Pragmas\<close>

lemma split_lines_no_terminator:
  "\<forall>c\<in>set xs. \<not> is_line_terminator c \<Longrightarrow> split_lines acc (xs @ ys) = split_lines (acc @ xs) ys"
  by (induction xs arbitrary: acc) auto

lemma blank_pragma_no_terminator:
  "\<forall>c\<in>set l. \<not> is_line_terminator c \<Longrightarrow> \<forall>c\<in>set (blank_pragma keyword l). \<not> is_line_terminator c"
  by (simp add: blank_pragma_def)

lemma split_lines_replace:
  assumes "\<forall>c\<in>set cur. \<not> is_line_terminator c"
  shows "split_lines acc (replace_pragma keyword cur s) =
           (case split_lines cur s of
              [] \<Rightarrow> []
            | l # ls \<Rightarrow> (acc @ blank_pragma keyword l) # map (blank_pragma keyword) ls)"
  using assms
proof (induction s arbitrary: cur acc)
  case Nil
  have "split_lines acc (blank_pragma keyword cur @ []) = split_lines (acc @ blank_pragma keyword cur) []"
    by (rule split_lines_no_terminator) (rule blank_pragma_no_terminator[OF Nil])
  then show ?case by (simp add: blank_pragma_def)
next
  case (Cons c cs)
  show ?case
  proof (cases "is_line_terminator c")
    case True
    have "split_lines acc (blank_pragma keyword cur @ c # replace_pragma keyword [] cs) =
        split_lines (acc @ blank_pragma keyword cur) (c # replace_pragma keyword [] cs)"
      by (rule split_lines_no_terminator) (rule blank_pragma_no_terminator[OF Cons.prems])
    also have "\<dots> = (acc @ blank_pragma keyword cur) # split_lines [] (replace_pragma keyword [] cs)"
      using True by simp
    also have "split_lines [] (replace_pragma keyword [] cs) =
        (case split_lines [] cs of [] \<Rightarrow> []
         | l # ls \<Rightarrow> ([] @ blank_pragma keyword l) # map (blank_pragma keyword) ls)"
      by (rule Cons.IH) simp
    also have "\<dots> = map (blank_pragma keyword) (split_lines [] cs)"
      by (simp split: list.splits)
    finally show ?thesis using True by (simp add: blank_pragma_def)
  next
    case False
    have "split_lines acc (replace_pragma keyword (cur @ [c]) cs) =
        (case split_lines (cur @ [c]) cs of [] \<Rightarrow> []
         | l # ls \<Rightarrow> (acc @ blank_pragma keyword l) # map (blank_pragma keyword) ls)"
      using Cons.prems False by (intro Cons.IH) auto
    then show ?thesis using False by simp
  qed
qed

lemma lines_replace_pragma:
  "split_lines [] (replace_pragma keyword [] s) = map (blank_pragma keyword) (split_lines [] s)"
  using split_lines_replace[of "[]" "[]" keyword s] by (simp split: list.splits)

lemma not_both_pragmas:
  "is_pragma_line VERSION_SOLIDITY l \<Longrightarrow> \<not> is_pragma_line EXPERIMENTAL_SOLIDITY l"
  by (auto simp: is_pragma_line_def VERSION_SOLIDITY_def EXPERIMENTAL_SOLIDITY_def prefix_def)

lemma blank_not_pragma: "\<not> is_pragma_line keyword (blank_pragma keyword l)"
  by (simp add: blank_pragma_def is_pragma_line_def)

lemma blank_other_pragma:
  "\<not> is_pragma_line k l \<Longrightarrow> \<not> is_pragma_line k (blank_pragma k' l)"
  by (simp add: blank_pragma_def is_pragma_line_def)

lemma untrimmed_body_no_pragma:
  "match_pragma VERSION_SOLIDITY (untrimmed_body contents) = [] \<and>
   match_pragma EXPERIMENTAL_SOLIDITY (untrimmed_body contents) = []"
  by (simp add: match_pragma_def untrimmed_body_def lines_replace_pragma filter_empty_conv
      blank_not_pragma blank_other_pragma)

lemma clean_contents_parts:
  "clean_contents contents =
     (trim (untrimmed_body contents), match_pragma VERSION_SOLIDITY contents,
      match_pragma EXPERIMENTAL_SOLIDITY contents)"
  by (simp add: clean_contents_def untrimmed_body_def Let_def)

lemma match_pragma_lines: "l \<in> set (match_pragma keyword s) \<Longrightarrow> is_pragma_line keyword l"
  by (simp add: match_pragma_def)

lemma versions_of_lines:
  assumes "l \<in> set (versions_of ext cwd x)"
  shows "is_pragma_line VERSION_SOLIDITY l"
proof (cases "resolve ext cwd x")
  case (Inl e)
  with assms show ?thesis by (simp add: versions_of_def cleanFile_def)
next
  case (Inr r)
  with assms have "l \<in> set (match_pragma VERSION_SOLIDITY (fileContents r))"
    by (simp add: versions_of_def cleanFile_def clean_contents_parts)
  then show ?thesis by (rule match_pragma_lines)
qed

lemma experimentals_of_lines:
  assumes "l \<in> set (experimentals_of ext cwd x)"
  shows "is_pragma_line EXPERIMENTAL_SOLIDITY l"
proof (cases "resolve ext cwd x")
  case (Inl e)
  with assms show ?thesis by (simp add: experimentals_of_def cleanFile_def)
next
  case (Inr r)
  with assms have "l \<in> set (match_pragma EXPERIMENTAL_SOLIDITY (fileContents r))"
    by (simp add: experimentals_of_def cleanFile_def clean_contents_parts)
  then show ?thesis by (rule match_pragma_lines)
qed

lemma pragma_line_first: "is_pragma_line keyword l \<Longrightarrow> keyword \<noteq> [] \<Longrightarrow> l \<noteq> [] \<and> hd l = hd keyword"
  by (auto simp: is_pragma_line_def prefix_def)

lemma output_first:
  "concat (map (\<lambda>x. file_marker x @ body x) files) = [] \<or>
   hd (concat (map (\<lambda>x. file_marker x @ body x) files)) = CHR 0x0A"
  by (cases files) (auto simp: file_marker_def)

lemma output_not_pragma:
  assumes k: "keyword \<noteq> []" "hd keyword \<noteq> CHR 0x0A"
  shows "\<not> is_pragma_line keyword (concat (map (\<lambda>x. file_marker x @ body x) files))"
proof
  assume "is_pragma_line keyword (concat (map (\<lambda>x. file_marker x @ body x) files))"
  from pragma_line_first[OF this k(1)]
  have "concat (map (\<lambda>x. file_marker x @ body x) files) \<noteq> []"
    and "hd (concat (map (\<lambda>x. file_marker x @ body x) files)) = hd keyword" by blast+
  with output_first[of body files] k(2) show False by metis
qed

lemma output_not_version:
  "\<not> is_pragma_line VERSION_SOLIDITY (concat (map (\<lambda>x. file_marker x @ body x) files))"
  by (rule output_not_pragma) (simp_all add: VERSION_SOLIDITY_def)


lemma experimental_not_version:
  "is_pragma_line EXPERIMENTAL_SOLIDITY l \<Longrightarrow> \<not> is_pragma_line VERSION_SOLIDITY l"
  using not_both_pragmas by blast

lemma emitted_structure:
  assumes "printConcatenation ext cwd files = Inr chunks"
  shows "chunks =
           (case concat (map (versions_of ext cwd) files) of [] \<Rightarrow> [] | v # _ \<Rightarrow> [v]) @
           unique (concat (map (experimentals_of ext cwd) files)) @
           [concat (map (\<lambda>x. file_marker x @ body_of ext cwd x) files)]"
  using printConcatenation_chunks[OF assms] by (simp add: emit_chunks_def)

lemma first_version_is_version:
  "\<forall>v\<in>set (case concat (map (versions_of ext cwd) files) of [] \<Rightarrow> [] | v # _ \<Rightarrow> [v]).
     is_pragma_line VERSION_SOLIDITY v"
proof (cases "concat (map (versions_of ext cwd) files)")
  case Nil
  show ?thesis unfolding Nil by simp
next
  case (Cons v vs)
  have "v \<in> set (concat (map (versions_of ext cwd) files))" unfolding Cons by simp
  then obtain x where "v \<in> set (versions_of ext cwd x)" by auto
  then have "is_pragma_line VERSION_SOLIDITY v" by (rule versions_of_lines)
  then show ?thesis unfolding Cons by simp
qed

lemma experimentals_are_experimental:
  "\<forall>l\<in>set (unique (concat (map (experimentals_of ext cwd) files))).
     is_pragma_line EXPERIMENTAL_SOLIDITY l"
  by (auto simp: set_unique dest: experimentals_of_lines)

lemma body_of_stripped:
  assumes "cleanFile ext cwd x = Inr c"
  shows "\<exists>contents. body_of ext cwd x = trim (untrimmed_body contents) \<and>
           versions_of ext cwd x = match_pragma VERSION_SOLIDITY contents \<and>
           match_pragma VERSION_SOLIDITY (untrimmed_body contents) = []"
proof -
  from assms obtain r where r: "resolve ext cwd x = Inr r"
    by (auto simp: cleanFile_def split: sum.splits)
  then have "body_of ext cwd x = trim (untrimmed_body (fileContents r))"
    and "versions_of ext cwd x = match_pragma VERSION_SOLIDITY (fileContents r)"
    by (simp_all add: body_of_def versions_of_def cleanFile_def clean_contents_parts)
  then show ?thesis using untrimmed_body_no_pragma by blast
qed


text \<open>
  Claim C4, as the code has it. Among the chunks sent to the sink, the version pragmas
  are: the first version pragma of the files in sort order, when there is one, and
  nothing else. The body of every file is the trimmed text of its contents with the
  imports removed and the pragma lines emptied, a text in which no line is a version
  pragma.
\<close>

theorem one_version_pragma:
  assumes "printConcatenation ext cwd files = Inr chunks"
  shows "filter (is_pragma_line VERSION_SOLIDITY) chunks =
           (case concat (map (versions_of ext cwd) files) of [] \<Rightarrow> [] | v # _ \<Rightarrow> [v]) \<and>
         (\<forall>x\<in>set files. \<exists>contents.
            body_of ext cwd x = trim (untrimmed_body contents) \<and>
            versions_of ext cwd x = match_pragma VERSION_SOLIDITY contents \<and>
            match_pragma VERSION_SOLIDITY (untrimmed_body contents) = [])"
proof
  have a: "filter (is_pragma_line VERSION_SOLIDITY)
        (case concat (map (versions_of ext cwd) files) of [] \<Rightarrow> [] | v # _ \<Rightarrow> [v]) =
        (case concat (map (versions_of ext cwd) files) of [] \<Rightarrow> [] | v # _ \<Rightarrow> [v])"
    using first_version_is_version by (simp add: filter_id_conv)
  have b: "filter (is_pragma_line VERSION_SOLIDITY)
        (unique (concat (map (experimentals_of ext cwd) files))) = []"
    using experimentals_are_experimental experimental_not_version
    by (auto simp: filter_empty_conv)
  show "filter (is_pragma_line VERSION_SOLIDITY) chunks =
           (case concat (map (versions_of ext cwd) files) of [] \<Rightarrow> [] | v # _ \<Rightarrow> [v])"
    unfolding emitted_structure[OF assms] using a b output_not_version by simp
  show "\<forall>x\<in>set files. \<exists>contents.
            body_of ext cwd x = trim (untrimmed_body contents) \<and>
            versions_of ext cwd x = match_pragma VERSION_SOLIDITY contents \<and>
            match_pragma VERSION_SOLIDITY (untrimmed_body contents) = []"
    using printConcatenation_chunks[OF assms] body_of_stripped by blast
qed

theorem one_version_pragma_witness:
  "printConcatenation (posix_ext fs_chain) ''/proj'' [''contracts/F2.sol'', ''contracts/F1.sol''] =
     Inr [''pragma solidity ^0.5.0;'',
          file_marker ''contracts/F2.sol'' @ ''contract F2 {}'' @
          file_marker ''contracts/F1.sol'' @ ''contract F1 {}''] \<and>
   concat (map (versions_of (posix_ext fs_chain) ''/proj'') [''contracts/F2.sol'', ''contracts/F1.sol'']) =
     [''pragma solidity ^0.5.0;'', ''pragma solidity ^0.4.0;''] \<and>
   filter (is_pragma_line VERSION_SOLIDITY)
     [''pragma solidity ^0.5.0;'',
      file_marker ''contracts/F2.sol'' @ ''contract F2 {}'' @
      file_marker ''contracts/F1.sol'' @ ''contract F1 {}''] = [''pragma solidity ^0.5.0;''] \<and>
   (\<exists>contents.
      body_of (posix_ext fs_chain) ''/proj'' ''contracts/F1.sol'' = trim (untrimmed_body contents) \<and>
      versions_of (posix_ext fs_chain) ''/proj'' ''contracts/F1.sol'' =
        match_pragma VERSION_SOLIDITY contents \<and>
      match_pragma VERSION_SOLIDITY (untrimmed_body contents) = [])"
proof -
  let ?ext = "posix_ext fs_chain"
  have pc: "printConcatenation ?ext ''/proj'' [''contracts/F2.sol'', ''contracts/F1.sol''] =
     Inr [''pragma solidity ^0.5.0;'',
          file_marker ''contracts/F2.sol'' @ ''contract F2 {}'' @
          file_marker ''contracts/F1.sol'' @ ''contract F1 {}'']"
    by code_simp
  have vs: "concat (map (versions_of ?ext ''/proj'') [''contracts/F2.sol'', ''contracts/F1.sol'']) =
     [''pragma solidity ^0.5.0;'', ''pragma solidity ^0.4.0;'']"
    by code_simp
  note t = one_version_pragma[OF pc, unfolded vs]
  from t have 1: "filter (is_pragma_line VERSION_SOLIDITY)
     [''pragma solidity ^0.5.0;'',
      file_marker ''contracts/F2.sol'' @ ''contract F2 {}'' @
      file_marker ''contracts/F1.sol'' @ ''contract F1 {}''] = [''pragma solidity ^0.5.0;'']"
    by simp
  from t have 2: "\<exists>contents.
      body_of ?ext ''/proj'' ''contracts/F1.sol'' = trim (untrimmed_body contents) \<and>
      versions_of ?ext ''/proj'' ''contracts/F1.sol'' = match_pragma VERSION_SOLIDITY contents \<and>
      match_pragma VERSION_SOLIDITY (untrimmed_body contents) = []"
    by simp
  from pc vs 1 2 show ?thesis by blast
qed

text \<open>
  Claim C4, as the spec states it, gives the example of \<open>F1\<close> (pragma \<open>V1\<close>) importing \<open>F2\<close>
  (pragma \<open>V2\<close>) and says the output has \<open>V1\<close> once and \<open>V2\<close> never. \<open>F2\<close> is sorted
  before \<open>F1\<close>, so the output has \<open>V2\<close> once and \<open>V1\<close> never.
\<close>

theorem later_file_pragma_first_counterexample:
  "imports_of (posix_ext fs_chain) ''/proj'' ''contracts/F1.sol'' = [''/proj/contracts/F2.sol''] \<and>
   versions_of (posix_ext fs_chain) ''/proj'' ''contracts/F1.sol'' = [''pragma solidity ^0.4.0;''] \<and>
   versions_of (posix_ext fs_chain) ''/proj'' ''contracts/F2.sol'' = [''pragma solidity ^0.5.0;''] \<and>
   flatten 5 (posix_ext fs_chain) ''/proj'' [''contracts/F1.sol''] (Some ''/proj'') =
     Some \<lparr>outcome = Inr (), cwd_after = ''/proj'',
           emitted = [''pragma solidity ^0.5.0;'',
             file_marker ''contracts/F2.sol'' @ ''contract F2 {}'' @
             file_marker ''contracts/F1.sol'' @ ''contract F1 {}'']\<rparr> \<and>
   count_list [''pragma solidity ^0.5.0;'',
             file_marker ''contracts/F2.sol'' @ ''contract F2 {}'' @
             file_marker ''contracts/F1.sol'' @ ''contract F1 {}''] ''pragma solidity ^0.4.0;'' = 0 \<and>
   count_list [''pragma solidity ^0.5.0;'',
             file_marker ''contracts/F2.sol'' @ ''contract F2 {}'' @
             file_marker ''contracts/F1.sol'' @ ''contract F1 {}''] ''pragma solidity ^0.5.0;'' = 1"
  by (intro conjI) code_simp+




section \<open>The traversal returns\<close>

text \<open>
  The fuel bounds the depth of the recursion, and a nested call enters a file that was
  not visited: when the entry points lie in a finite set of files closed under imports,
  fuel equal to the size of the set is enough for \<open>getSortedFilePaths\<close> and \<open>flatten\<close> to
  return, and more fuel does not change what they return.
\<close>

lemma card_Diff_insert_less:
  assumes "finite U" "d \<in> U" "d \<notin> A"
  shows "card (U - insert d A) < card (U - A)"
proof -
  have "U - insert d A \<subset> U - A" using assms by auto
  then show ?thesis using assms(1) by (simp add: psubset_card_mono)
qed

lemma card_Diff_mono:
  assumes "finite U" "A \<subseteq> B"
  shows "card (U - B) \<le> card (U - A)"
  using assms by (intro card_mono) auto

lemma dfs_returns:
  "finite U \<Longrightarrow> import_closed ext cwd U \<Longrightarrow> fp \<in> U \<Longrightarrow>
     card (U - set (snd st @ [fp])) < n \<Longrightarrow> dependenciesDfs n ext cwd st fp \<noteq> None"
  "finite U \<Longrightarrow> import_closed ext cwd U \<Longrightarrow> set deps \<subseteq> U \<Longrightarrow>
     card (U - set (snd st)) \<le> n \<Longrightarrow> dfs_loop n ext cwd st fp deps \<noteq> None"
proof (induction n ext cwd st fp and n ext cwd st fp deps
    rule: dependenciesDfs_dfs_loop.induct)
  case (1 ext cwd st fp)
  then show ?case by simp
next
  case (2 n ext cwd st fp)
  show ?case
  proof (cases "resolve ext cwd fp")
    case (Inl e)
    then show ?thesis by (simp add: Let_def)
  next
    case r: (Inr r)
    show ?thesis
    proof (cases "getDependencies ext (filePath r) (fileContents r)")
      case (Inl e)
      with r show ?thesis by (simp add: Let_def)
    next
      case (Inr deps)
      have "imports_of ext cwd fp = deps" using r Inr by (simp add: imports_of_def)
      then have sub: "set deps \<subseteq> U" using "2.prems"(2,3) unfolding import_closed_def by blast
      have "card (U - set (snd (fst st, snd st @ [fp]))) \<le> n" using "2.prems"(4) by simp
      from "2.IH"[OF refl r Inr "2.prems"(1,2) sub this] show ?thesis
        using r Inr by (simp add: Let_def)
    qed
  qed
next
  case (3 n ext cwd st fp)
  then show ?case by simp
next
  case (4 n ext cwd st fp d0 rest)
  from "4.prems"(3) have d0: "d0 \<in> U" and rest: "set rest \<subseteq> U" by auto
  show ?case
  proof (cases "d0 \<in> set (snd st)")
    case True
    have "card (U - set (snd (graph_add (fst st) d0 fp, snd st))) \<le> n" using "4.prems"(4) by simp
    from "4.IH"(1)[OF refl True "4.prems"(1,2) rest this] show ?thesis
      using True by (simp add: Let_def)
  next
    case False
    have "card (U - insert d0 (set (snd st))) < card (U - set (snd st))"
      using "4.prems"(1) d0 False by (rule card_Diff_insert_less)
    then have c: "card (U - set (snd (graph_add (fst st) d0 fp, snd st) @ [d0])) < n"
      using "4.prems"(4) by simp
    from "4.IH"(2)[OF refl False "4.prems"(1,2) d0 c]
    obtain res where res: "dependenciesDfs n ext cwd (graph_add (fst st) d0 fp, snd st) d0 = Some res"
      by blast
    show ?thesis
    proof (cases res)
      case (Inl e)
      with res False show ?thesis by (simp add: Let_def)
    next
      case (Inr st1)
      from dfs_posts(1)[OF res[unfolded Inr]] have "set (snd st) \<subseteq> set (snd st1)"
        unfolding visit_post_def by auto
      then have "card (U - set (snd st1)) \<le> card (U - set (snd st))"
        using "4.prems"(1) by (intro card_Diff_mono)
      then have "card (U - set (snd st1)) \<le> n" using "4.prems"(4) by simp
      from "4.IH"(3)[OF refl False res[unfolded Inr] _ "4.prems"(1,2) rest this] show ?thesis
        using res Inr False by (simp add: Let_def)
    qed
  qed
qed

lemma dfs_entries_returns:
  assumes "finite U" "import_closed ext cwd U" "set eps \<subseteq> U" "card U \<le> n"
  shows "dfs_entries n ext cwd st eps \<noteq> None"
  using assms(3)
proof (induction eps arbitrary: st)
  case Nil
  then show ?case by simp
next
  case (Cons e rest)
  then have e: "e \<in> U" and rest: "set rest \<subseteq> U" by auto
  have "U - set (snd st @ [e]) \<subset> U" using e by auto
  then have "card (U - set (snd st @ [e])) < card U"
    using assms(1) by (simp add: psubset_card_mono)
  then have "card (U - set (snd st @ [e])) < n" using assms(4) by simp
  from dfs_returns(1)[OF assms(1,2) e this]
  obtain res where res: "dependenciesDfs n ext cwd st e = Some res" by blast
  show ?case
  proof (cases res)
    case (Inl err)
    with res show ?thesis by simp
  next
    case (Inr st1)
    with res Cons.IH[OF rest, of st1] show ?thesis by simp
  qed
qed

lemma getSortedFilePaths_returns:
  assumes "finite U" "import_closed ext cwd U" "set entryPoints \<subseteq> U" "card U \<le> n"
  shows "getSortedFilePaths n ext cwd entryPoints truffleRoot \<noteq> None"
  using dfs_entries_returns[OF assms, of "([], [])"]
  by (auto simp: getSortedFilePaths_def split: option.splits sum.splits)

lemma flatten_returns:
  assumes "finite U"
    and "\<And>truffleRoot cwd1. chosen_root ext cwd root = Inr truffleRoot \<Longrightarrow>
           process_chdir ext cwd truffleRoot = Inr cwd1 \<Longrightarrow>
           import_closed ext cwd1 U \<and>
           set (getFilePathsFromTruffleRoot ext cwd filePaths truffleRoot) \<subseteq> U"
    and "card U \<le> n"
  shows "flatten n ext cwd filePaths root \<noteq> None"
proof (cases "chosen_root ext cwd root")
  case (Inl e)
  then show ?thesis by (simp add: flatten_chosen_root)
next
  case (Inr truffleRoot)
  show ?thesis
  proof (cases "process_chdir ext cwd truffleRoot")
    case (Inl e)
    with Inr show ?thesis by (simp add: flatten_chosen_root flatten_with_root_def)
  next
    case c: (Inr cwd1)
    from assms(2)[OF Inr c] have cl: "import_closed ext cwd1 U"
      and sub: "set (getFilePathsFromTruffleRoot ext cwd filePaths truffleRoot) \<subseteq> U" by blast+
    from getSortedFilePaths_returns[OF assms(1) cl sub assms(3)]
    have "getSortedFilePaths n ext cwd1
        (getFilePathsFromTruffleRoot ext cwd filePaths truffleRoot) truffleRoot \<noteq> None" .
    then show ?thesis
      unfolding flatten_after_chdir[OF Inr c]
      by (auto simp: flatten_in_root_def split: option.splits sum.splits)
  qed
qed

lemma dfs_more_fuel:
  "dependenciesDfs n ext cwd st fp = Some res \<Longrightarrow> dependenciesDfs (Suc n) ext cwd st fp = Some res"
  "dfs_loop n ext cwd st fp deps = Some res \<Longrightarrow> dfs_loop (Suc n) ext cwd st fp deps = Some res"
proof (induction n ext cwd st fp and n ext cwd st fp deps arbitrary: res and res
    rule: dependenciesDfs_dfs_loop.induct)
  case (1 ext cwd st fp)
  then show ?case by simp
next
  case (2 n ext cwd st fp)
  show ?case
  proof (cases "resolve ext cwd fp")
    case (Inl e)
    with "2.prems" show ?thesis by (simp add: Let_def)
  next
    case r: (Inr r)
    show ?thesis
    proof (cases "getDependencies ext (filePath r) (fileContents r)")
      case (Inl e)
      with r "2.prems" show ?thesis by (simp add: Let_def)
    next
      case (Inr deps)
      with r "2.prems" have "dfs_loop n ext cwd (fst st, snd st @ [fp]) fp deps = Some res"
        by (simp add: Let_def)
      from "2.IH"[OF refl r Inr this] show ?thesis using r Inr by (simp add: Let_def)
    qed
  qed
next
  case (3 n ext cwd st fp)
  then show ?case by simp
next
  case (4 n ext cwd st fp d0 rest)
  show ?case
  proof (cases "d0 \<in> set (snd st)")
    case True
    with "4.prems" have "dfs_loop n ext cwd (graph_add (fst st) d0 fp, snd st) fp rest = Some res"
      by (simp add: Let_def)
    from "4.IH"(1)[OF refl True this] show ?thesis using True by (simp add: Let_def)
  next
    case False
    with "4.prems" obtain r1 where
      r1: "dependenciesDfs n ext cwd (graph_add (fst st) d0 fp, snd st) d0 = Some r1"
      by (auto simp: Let_def split: option.splits)
    from "4.IH"(2)[OF refl False r1]
    have s1: "dependenciesDfs (Suc n) ext cwd (graph_add (fst st) d0 fp, snd st) d0 = Some r1" .
    show ?thesis
    proof (cases r1)
      case (Inl e)
      with r1 False "4.prems" have "res = Inl e" by (simp add: Let_def)
      with s1 Inl False show ?thesis by (simp add: Let_def del: dependenciesDfs.simps)
    next
      case (Inr st1)
      with r1 False "4.prems" have "dfs_loop n ext cwd st1 fp rest = Some res"
        by (simp add: Let_def)
      from "4.IH"(3)[OF refl False r1[unfolded Inr] _ this]
      have "dfs_loop (Suc n) ext cwd st1 fp rest = Some res" by simp
      with s1 Inr False show ?thesis by (simp add: Let_def del: dependenciesDfs.simps)
    qed
  qed
qed

lemma dfs_entries_more_fuel:
  "dfs_entries n ext cwd st eps = Some res \<Longrightarrow> dfs_entries (Suc n) ext cwd st eps = Some res"
proof (induction eps arbitrary: st)
  case Nil
  then show ?case by simp
next
  case (Cons e rest)
  from Cons.prems obtain r1 where r1: "dependenciesDfs n ext cwd st e = Some r1"
    by (auto split: option.splits)
  from dfs_more_fuel(1)[OF r1] have s1: "dependenciesDfs (Suc n) ext cwd st e = Some r1" .
  show ?case
  proof (cases r1)
    case (Inl err)
    with r1 Cons.prems have "res = Inl err" by simp
    with s1 Inl show ?thesis by (simp del: dependenciesDfs.simps)
  next
    case (Inr st1)
    with r1 Cons.prems have "dfs_entries n ext cwd st1 rest = Some res" by simp
    from Cons.IH[OF this] s1 Inr show ?thesis by (simp del: dependenciesDfs.simps)
  qed
qed

lemma getSortedFilePaths_more_fuel:
  assumes "getSortedFilePaths n ext cwd entryPoints truffleRoot = Some res" "n \<le> m"
  shows "getSortedFilePaths m ext cwd entryPoints truffleRoot = Some res"
  using assms(2,1)
proof (induction m rule: dec_induct)
  case base
  then show ?case .
next
  case (step k)
  from step.IH[OF step.prems] obtain r where
    r: "dfs_entries k ext cwd ([], []) entryPoints = Some r"
    by (auto simp: getSortedFilePaths_def split: option.splits)
  from dfs_entries_more_fuel[OF r] step.IH[OF step.prems] r show ?case
    by (simp add: getSortedFilePaths_def)
qed

end
